theory Spec2Isabelle
  imports
    Main
    "HOL-Library.AList"
    "HOL-Library.Multiset"
    "HOL-Library.List_Lexorder"
    "HOL-Library.Char_ord"
begin

section \<open>Data model (pkg/compose/types.go)\<close>

text \<open>
  A Go \<open>map[string]V\<close> is an association list with distinct keys: \<open>map_of\<close> reads it,
  \<open>AList.update\<close> writes it, and \<open>index\<close> is the Go expression \<open>m[k]\<close>, which yields the
  zero value of \<open>V\<close> for a missing key. A nil map and an empty map are both \<open>[]\<close> wherever
  the code only reads the map; the top-level maps of a \<open>ComposeFile\<close>, which the code tests
  against nil before writing, are optional.
\<close>

type_synonym 'v gomap = "(string \<times> 'v) list"

definition index :: "'v gomap \<Rightarrow> 'v \<Rightarrow> string \<Rightarrow> 'v" where
  "index m zero k = (case map_of m k of Some v \<Rightarrow> v | None \<Rightarrow> zero)"

text \<open>
  The order in which \<open>for k := range m\<close> visits the keys of a Go map is chosen by the
  runtime, anew for every loop. A loop whose result can depend on that order (it returns
  early, or appends to a slice) takes its key order from an oracle, indexed by the source
  line of the loop (and by the service name for a loop nested in another one). The oracle
  may return any permutation of the keys.
\<close>

datatype site = Loop nat | LoopIn nat string

type_synonym iteration = "site \<Rightarrow> string list \<Rightarrow> string list"

definition range_keys :: "iteration \<Rightarrow> site \<Rightarrow> 'v gomap \<Rightarrow> string list" where
  "range_keys it s m = it s (map fst m)"

definition go_iteration :: "iteration \<Rightarrow> bool" where
  "go_iteration it \<longleftrightarrow> (\<forall>s ks. mset (it s ks) = mset ks)"

text \<open>
  Values decoded from YAML into \<open>interface{}\<close>: nil, scalars, \<open>[]interface{}\<close> and
  \<open>map[string]interface{}\<close>. \<open>YInt\<close> stands for an integer that is decoded to a Go \<open>int\<close>,
  that is one between \<open>-2^63\<close> and \<open>2^63 - 1\<close>. Left out are the values decoded to
  \<open>uint64\<close> or \<open>float64\<close> (larger integers, YAML floats) and maps with non-string keys.
\<close>

datatype yaml =
    YNil
  | YStr string
  | YInt int
  | YBool bool
  | YSeq "yaml list"
  | YMap "(string \<times> yaml) list"

record DependsOnCondition =
  Condition :: string
  Restart :: bool

record BuildConfig =
  Context :: string
  Dockerfile :: string
  Args :: "string gomap"
  Target :: string
  Labels :: "string gomap"

text \<open>
  The dynamic type of an \<open>interface{}\<close> field of a service: the value as decoded from YAML,
  or one of the Go types the normalizer stores back (\<open>[]string\<close>, \<open>map[string]string\<close>,
  \<open>map[string]DependsOnCondition\<close>, \<open>*BuildConfig\<close>).
\<close>

datatype dyn =
    Yaml yaml
  | Strings "string list"
  | StringMap "string gomap"
  | DependsOnMap "DependsOnCondition gomap"
  | BuildPtr BuildConfig

record Healthcheck =
  Test :: dyn
  Interval :: string
  Timeout :: string
  Retries :: int
  Disable :: bool

record Service =
  Image :: string
  Build :: dyn
  Command :: dyn
  Entrypoint :: dyn
  Environment :: dyn
  EnvFile :: dyn
  Ports :: "string list"
  Volumes :: "string list"
  Networks :: dyn
  DependsOn :: dyn
  Restart :: string
  WorkingDir :: string
  User :: string
  Hostname :: string
  DNS :: dyn
  DNSSearch :: dyn
  ExtraHosts :: "string list"
  Labels :: "string gomap"
  StdinOpen :: bool
  Tty :: bool
  ReadOnly :: bool
  Privileged :: bool
  Init :: bool
  Platform :: string
  CPUs :: dyn
  MemLimit :: string
  Tmpfs :: dyn
  Healthcheck :: "Healthcheck option"
  ContainerName :: string
  PullPolicy :: string
  StopSignal :: string
  StopGracePeriod :: string

text \<open>
  Errors are values. The Go code builds them with \<open>fmt.Errorf\<close>; each constructor
  stands for one format string and carries its arguments.
\<close>

datatype error =
    UndefinedDependency string string
      \<comment> \<open>\<open>service %q depends on undefined service %q\<close>\<close>
  | CycleError "string list"
      \<comment> \<open>\<open>dependency cycle detected among services: %v\<close>\<close>
  | GetwdError string
      \<comment> \<open>\<open>getting working directory: %w\<close>\<close>
  | NoComposeFile string "string list"
      \<comment> \<open>\<open>no compose file found in %s (tried: %s)\<close>\<close>
  | ReadError string string
      \<comment> \<open>\<open>reading %s: %w\<close>\<close>
  | ParseError string string
      \<comment> \<open>\<open>parsing %s: %w\<close>\<close>
  | NoFilesLoaded
      \<comment> \<open>\<open>no compose files loaded\<close>\<close>
  | ServiceError string error
      \<comment> \<open>\<open>service %q: %w\<close>\<close>
  | FieldError string error
      \<comment> \<open>\<open>command: %w\<close>, \<open>build: %w\<close> and so on\<close>
  | UnsupportedType string
      \<comment> \<open>\<open>unsupported type %T\<close>\<close>

section \<open>Dependency graph (ResolveOrder)\<close>

text \<open>Lines 23-28: the loop over the keys of one service's \<open>DependsOn\<close> map.\<close>

fun depends_on_loop ::
  "Service gomap \<Rightarrow> string \<Rightarrow> string list \<Rightarrow> string list gomap \<Rightarrow> error + string list gomap"
where
  "depends_on_loop services name [] deps = Inr deps"
| "depends_on_loop services name (dep # rest) deps =
     (if map_of services dep = None then Inl (UndefinedDependency name dep)
      else depends_on_loop services name rest
             (AList.update name (index deps [] name @ [dep]) deps))"

text \<open>
  Lines 17-30: the loop over the services. The type switch has a single case; a nil
  \<open>DependsOn\<close> and a value of any other type leave \<open>deps\<close> alone.
\<close>

fun services_loop ::
  "iteration \<Rightarrow> Service gomap \<Rightarrow> string list \<Rightarrow> string list gomap \<Rightarrow> error + string list gomap"
where
  "services_loop it services [] deps = Inr deps"
| "services_loop it services (name # rest) deps =
     (case map_of services name of
        None \<Rightarrow> services_loop it services rest deps
      | Some svc \<Rightarrow>
          (case DependsOn svc of
             Yaml YNil \<Rightarrow> services_loop it services rest deps
           | DependsOnMap d \<Rightarrow>
               (case depends_on_loop services name (range_keys it (LoopIn 23 name) d) deps of
                  Inl e \<Rightarrow> Inl e
                | Inr deps' \<Rightarrow> services_loop it services rest deps')
           | _ \<Rightarrow> services_loop it services rest deps))"

text \<open>Lines 12-35: the adjacency list, every dependency list sorted.\<close>

definition build_deps :: "iteration \<Rightarrow> Service gomap \<Rightarrow> error + string list gomap" where
  "build_deps it services =
     (let deps = fold (\<lambda>name deps. AList.update name [] deps)
                   (range_keys it (Loop 13) services) []
      in case services_loop it services (range_keys it (Loop 17) services) deps of
           Inl e \<Rightarrow> Inl e
         | Inr deps \<Rightarrow>
             Inr (fold (\<lambda>name deps. AList.update name (sort (index deps [] name)) deps)
                    (range_keys it (Loop 33) deps) deps))"

text \<open>Lines 39-50: the in-degrees and the reverse adjacency list.\<close>

definition add_dependent :: "string \<Rightarrow> string \<Rightarrow> string list gomap \<Rightarrow> string list gomap" where
  "add_dependent name dep dependents =
     AList.update dep (index dependents [] dep @ [name]) dependents"

definition build_degrees ::
  "iteration \<Rightarrow> Service gomap \<Rightarrow> string list gomap \<Rightarrow> int gomap \<times> string list gomap"
where
  "build_degrees it services deps =
     (let inDegree = fold (\<lambda>name inDegree. AList.update name 0 inDegree)
                       (range_keys it (Loop 42) services) []
      in fold (\<lambda>name (inDegree, dependents).
                 (AList.update name (int (length (index deps [] name))) inDegree,
                  fold (add_dependent name) (index deps [] name) dependents))
           (range_keys it (Loop 45) deps) (inDegree, []))"

text \<open>Lines 53-59: the services without dependencies, sorted.\<close>

definition initial_queue :: "iteration \<Rightarrow> int gomap \<Rightarrow> string list" where
  "initial_queue it inDegree =
     sort (filter (\<lambda>name. index inDegree 0 name = 0) (range_keys it (Loop 54) inDegree))"

text \<open>Lines 71-76: the loop over the sorted children of the service just popped.\<close>

fun children_loop :: "string list \<Rightarrow> int gomap \<times> string list \<Rightarrow> int gomap \<times> string list" where
  "children_loop [] (inDegree, queue) = (inDegree, queue)"
| "children_loop (child # rest) (inDegree, queue) =
     (let inDegree' = AList.update child (index inDegree 0 child - 1) inDegree
      in children_loop rest
           (inDegree', if index inDegree' 0 child = 0 then queue @ [child] else queue))"

text \<open>
  Lines 61-77: Kahn's loop. The state is the queue, the order so far and the in-degrees;
  the result is the final order and the final in-degrees.
\<close>

function kahn_loop ::
  "string list gomap \<Rightarrow> string list \<Rightarrow> string list \<Rightarrow> int gomap \<Rightarrow> string list \<times> int gomap"
where
  "kahn_loop dependents [] order inDegree = (order, inDegree)"
| "kahn_loop dependents (current # queue) order inDegree =
     kahn_loop dependents
       (snd (children_loop (sort (index dependents [] current)) (inDegree, queue)))
       (order @ [current])
       (fst (children_loop (sort (index dependents [] current)) (inDegree, queue)))"
  by pat_completeness auto

text \<open>
  The loop ends: a child enters the queue only when its in-degree drops from one to
  zero, so the length of the queue plus the number of keys with a positive in-degree
  falls at every pop.
\<close>

definition positive :: "int gomap \<Rightarrow> string set" where
  "positive inDegree = {k. 0 < index inDegree 0 k}"

lemma index_update:
  "index (AList.update k v m) z k' = (if k' = k then v else index m z k')"
  by (simp add: index_def update_conv')

lemma positive_subset: "positive m \<subseteq> fst ` set m"
proof
  fix k assume "k \<in> positive m"
  then have "map_of m k \<noteq> None"
    by (simp add: positive_def index_def split: option.splits)
  then show "k \<in> fst ` set m"
    by (simp add: map_of_eq_None_iff)
qed

lemma finite_positive: "finite (positive m)"
  by (rule finite_subset [OF positive_subset]) simp

lemma positive_update:
  "positive (AList.update k v m) = (if 0 < v then insert k (positive m) else positive m - {k})"
  by (auto simp: positive_def index_update)

lemma children_step_measure:
  fixes ind :: "int gomap" and c :: string
  defines "v \<equiv> index ind 0 c - 1"
  shows "length (if v = 0 then q @ [c] else q) + card (positive (AList.update c v ind))
           \<le> length q + card (positive ind)"
proof -
  consider (zero) "v = 0" | (pos) "0 < v" | (neg) "v < 0" by linarith
  then show ?thesis
  proof cases
    case zero
    then have "c \<in> positive ind" by (simp add: positive_def v_def)
    then have "card (positive ind) = Suc (card (positive ind - {c}))"
      using finite_positive [of ind] by (metis card.remove)
    moreover have "positive (AList.update c v ind) = positive ind - {c}"
      using zero by (simp only: positive_update) simp
    ultimately show ?thesis using zero by simp
  next
    case pos
    then have "c \<in> positive ind" by (simp add: positive_def v_def)
    then have "insert c (positive ind) = positive ind" by blast
    then have "positive (AList.update c v ind) = positive ind"
      using pos by (simp only: positive_update if_True)
    then show ?thesis using pos by simp
  next
    case neg
    then have "c \<notin> positive ind" by (simp add: positive_def v_def)
    then have "positive ind - {c} = positive ind" by blast
    moreover have "positive (AList.update c v ind) = positive ind - {c}"
      using neg by (simp only: positive_update) simp
    ultimately show ?thesis using neg by simp
  qed
qed

lemma children_loop_Cons:
  "children_loop (c # cs) (ind, q) =
     children_loop cs (AList.update c (index ind 0 c - 1) ind,
                       if index ind 0 c - 1 = 0 then q @ [c] else q)"
  by (simp add: Let_def index_update)

lemma children_loop_measure:
  "length (snd (children_loop cs (ind, q))) + card (positive (fst (children_loop cs (ind, q))))
     \<le> length q + card (positive ind)"
proof (induction cs arbitrary: ind q)
  case Nil
  show ?case by (simp only: children_loop.simps fst_conv snd_conv le_refl)
next
  case (Cons c cs)
  show ?case
    unfolding children_loop_Cons
    by (rule order_trans [OF Cons.IH children_step_measure])
qed

lemma kahn_step_decreases:
  "((dependents,
     snd (children_loop (sort (index dependents [] current)) (inDegree, queue)),
     order @ [current],
     fst (children_loop (sort (index dependents [] current)) (inDegree, queue))),
    (dependents, current # queue, order, inDegree))
   \<in> measure (\<lambda>(dependents, queue, order, inDegree). length queue + card (positive inDegree))"
proof -
  have "length (snd (children_loop (sort (index dependents [] current)) (inDegree, queue)))
      + card (positive (fst (children_loop (sort (index dependents [] current)) (inDegree, queue))))
      < length (current # queue) + card (positive inDegree)"
    using children_loop_measure [of "sort (index dependents [] current)" inDegree queue]
    unfolding length_Cons by linarith
  then show ?thesis
    unfolding in_measure prod.case .
qed

termination kahn_loop
  by (relation "measure (\<lambda>(dependents, queue, order, inDegree). length queue + card (positive inDegree))")
     (rule wf_measure, rule kahn_step_decreases)

text \<open>Lines 79-89: the services left with a positive in-degree, sorted.\<close>

definition cycled :: "iteration \<Rightarrow> int gomap \<Rightarrow> string list" where
  "cycled it inDegree =
     sort (filter (\<lambda>name. 0 < index inDegree 0 name) (range_keys it (Loop 82) inDegree))"

text \<open>Lines 37-77: the final order and the final in-degrees.\<close>

definition kahn :: "iteration \<Rightarrow> Service gomap \<Rightarrow> string list gomap \<Rightarrow> string list \<times> int gomap" where
  "kahn it services deps =
     (case build_degrees it services deps of
        (inDegree, dependents) \<Rightarrow> kahn_loop dependents (initial_queue it inDegree) [] inDegree)"

definition ResolveOrder :: "iteration \<Rightarrow> Service gomap \<Rightarrow> error + string list" where
  "ResolveOrder it services =
     (case build_deps it services of
        Inl e \<Rightarrow> Inl e
      | Inr deps \<Rightarrow>
          (case kahn it services deps of
             (order, inDegree) \<Rightarrow>
               if length order \<noteq> length services
               then Inl (CycleError (cycled it inDegree))
               else Inr order))"

section \<open>Environment interpolation (interpolateEnv)\<close>

text \<open>
  The process environment is a partial map: \<open>os.LookupEnv k\<close> is \<open>env k\<close>, and
  \<open>os.Getenv\<close> yields the empty string for a variable that is not set.
\<close>

type_synonym env = "string \<rightharpoonup> string"

definition Getenv :: "env \<Rightarrow> string \<Rightarrow> string" where
  "Getenv env k = (case env k of Some v \<Rightarrow> v | None \<Rightarrow> [])"

text \<open>\<open>strings.Index s sub\<close>: the first position of \<open>sub\<close> in \<open>s\<close>; Go's \<open>-1\<close> is \<open>None\<close>.\<close>

fun strings_Index :: "string \<Rightarrow> string \<Rightarrow> nat option" where
  "strings_Index [] sub = (if sub = [] then Some 0 else None)"
| "strings_Index (c # s) sub =
     (if take (length sub) (c # s) = sub then Some 0
      else map_option Suc (strings_Index s sub))"

text \<open>Lines 99-125: the replacement of one match, \<open>inner\<close> being the text between the braces.\<close>

definition expand :: "env \<Rightarrow> string \<Rightarrow> string" where
  "expand env inner =
     (case strings_Index inner '':-'' of
        Some idx \<Rightarrow>
          (case env (take idx inner) of
             Some val \<Rightarrow> if val \<noteq> [] then val else drop (idx + 2) inner
           | None \<Rightarrow> drop (idx + 2) inner)
      | None \<Rightarrow>
          (case strings_Index inner ''-'' of
             Some idx \<Rightarrow>
               (case env (take idx inner) of
                  Some val \<Rightarrow> val
                | None \<Rightarrow> drop (idx + 1) inner)
           | None \<Rightarrow> Getenv env inner))"

text \<open>
  \<open>envVarPattern.ReplaceAllStringFunc\<close> for the pattern \<open>\$\{([^}]+)\}\<close>: the leftmost
  match starts at the first \<open>${\<close> that is followed by at least one character other
  than \<open>}\<close> and then by a \<open>}\<close>; the scan goes on after the closing brace, and the
  replacement text is not scanned again.
\<close>

definition not_brace :: "char \<Rightarrow> bool" where
  "not_brace c \<longleftrightarrow> c \<noteq> CHR ''}''"

function interpolateEnv :: "env \<Rightarrow> string \<Rightarrow> string" where
  "interpolateEnv env [] = []"
| "interpolateEnv env (c # s) =
     (if c = CHR ''$'' \<and> take 1 s = ''{''
         \<and> takeWhile not_brace (drop 1 s) \<noteq> []
         \<and> dropWhile not_brace (drop 1 s) \<noteq> []
      then expand env (takeWhile not_brace (drop 1 s))
             @ interpolateEnv env (drop 1 (dropWhile not_brace (drop 1 s)))
      else c # interpolateEnv env s)"
  by pat_completeness auto

lemma length_after_match: "length (dropWhile P (drop n s)) - m < Suc (length s)"
proof -
  have "length (dropWhile P (drop n s)) \<le> length (drop n s)"
    by (rule length_dropWhile_le)
  then show ?thesis by simp
qed

termination interpolateEnv
  by (relation "measure (\<lambda>(env, s). length s)") (simp_all add: length_after_match)

section \<open>Normalizer (resolveService and its helpers)\<close>

text \<open>\<open>fmt.Sprintf("%v", v)\<close> on a value decoded from YAML. Go prints a map by sorted key.\<close>

function show_nat :: "nat \<Rightarrow> string" where
  "show_nat n =
     (if n < 10 then [''0123456789'' ! n]
      else show_nat (n div 10) @ [''0123456789'' ! (n mod 10)])"
  by pat_completeness auto

termination show_nat
  by (relation "measure id") simp_all

definition show_int :: "int \<Rightarrow> string" where
  "show_int i = (if i < 0 then CHR ''-'' # show_nat (nat (- i)) else show_nat (nat i))"

fun join_with :: "string \<Rightarrow> string list \<Rightarrow> string" where
  "join_with sep [] = []"
| "join_with sep [x] = x"
| "join_with sep (x # y # ys) = x @ sep @ join_with sep (y # ys)"

fun Sprintf_v :: "yaml \<Rightarrow> string" where
  "Sprintf_v YNil = ''<nil>''"
| "Sprintf_v (YStr s) = s"
| "Sprintf_v (YInt i) = show_int i"
| "Sprintf_v (YBool b) = (if b then ''true'' else ''false'')"
| "Sprintf_v (YSeq xs) = ''['' @ join_with '' '' (map Sprintf_v xs) @ '']''"
| "Sprintf_v (YMap m) =
     ''map['' @ join_with '' ''
        (map (\<lambda>kv. fst kv @ '':'' @ Sprintf_v (snd kv)) (sort_key fst m)) @ '']''"

text \<open>The \<open>%T\<close> of the error messages.\<close>

fun type_name :: "dyn \<Rightarrow> string" where
  "type_name (Yaml YNil) = ''<nil>''"
| "type_name (Yaml (YStr s)) = ''string''"
| "type_name (Yaml (YInt i)) = ''int''"
| "type_name (Yaml (YBool b)) = ''bool''"
| "type_name (Yaml (YSeq xs)) = ''[]interface {}''"
| "type_name (Yaml (YMap m)) = ''map[string]interface {}''"
| "type_name (Strings xs) = ''[]string''"
| "type_name (StringMap m) = ''map[string]string''"
| "type_name (DependsOnMap m) = ''map[string]compose.DependsOnCondition''"
| "type_name (BuildPtr bc) = ''*compose.BuildConfig''"

text \<open>
  \<open>strings.Fields\<close> (used by \<open>splitCommand\<close>) is a parameter of \<open>resolveCommand\<close>: it
  splits at Unicode white space.
\<close>

fun resolveCommand :: "(string \<Rightarrow> string list) \<Rightarrow> dyn \<Rightarrow> error + dyn" where
  "resolveCommand Fields (Yaml YNil) = Inr (Yaml YNil)"
| "resolveCommand Fields (Yaml (YStr val)) = Inr (Strings (Fields val))"
| "resolveCommand Fields (Yaml (YSeq val)) = Inr (Strings (map Sprintf_v val))"
| "resolveCommand Fields (Strings val) = Inr (Strings val)"
| "resolveCommand Fields v = Inl (UnsupportedType (type_name v))"

text \<open>\<open>strings.Cut s "="\<close>.\<close>

definition strings_Cut :: "string \<Rightarrow> string \<Rightarrow> string \<times> string \<times> bool" where
  "strings_Cut s sep =
     (case strings_Index s sep of
        Some i \<Rightarrow> (take i s, drop (i + length sep) s, True)
      | None \<Rightarrow> (s, [], False))"

definition environment_entry :: "env \<Rightarrow> string \<times> yaml \<Rightarrow> string gomap \<Rightarrow> string gomap" where
  "environment_entry env kv result =
     (if snd kv = YNil then AList.update (fst kv) (Getenv env (fst kv)) result
      else AList.update (fst kv) (Sprintf_v (snd kv)) result)"

definition environment_item :: "env \<Rightarrow> yaml \<Rightarrow> string gomap \<Rightarrow> string gomap" where
  "environment_item env item result =
     (case strings_Cut (Sprintf_v item) ''='' of
        (k, v, ok) \<Rightarrow>
          if ok then AList.update k v result
          else AList.update (Sprintf_v item) (Getenv env (Sprintf_v item)) result)"

fun resolveEnvironment :: "env \<Rightarrow> dyn \<Rightarrow> error + dyn" where
  "resolveEnvironment env (Yaml YNil) = Inr (Yaml YNil)"
| "resolveEnvironment env (Yaml (YMap val)) = Inr (StringMap (fold (environment_entry env) val []))"
| "resolveEnvironment env (StringMap val) = Inr (StringMap val)"
| "resolveEnvironment env (Yaml (YSeq val)) = Inr (StringMap (fold (environment_item env) val []))"
| "resolveEnvironment env v = Inl (UnsupportedType (type_name v))"

fun env_file_item :: "yaml \<Rightarrow> string list \<Rightarrow> string list" where
  "env_file_item (YStr entry) result = result @ [entry]"
| "env_file_item (YMap entry) result =
     (case map_of entry ''path'' of Some p \<Rightarrow> result @ [Sprintf_v p] | None \<Rightarrow> result)"
| "env_file_item item result = result"

fun resolveEnvFile :: "dyn \<Rightarrow> error + dyn" where
  "resolveEnvFile (Yaml YNil) = Inr (Yaml YNil)"
| "resolveEnvFile (Yaml (YStr val)) = Inr (Strings [val])"
| "resolveEnvFile (Yaml (YSeq val)) = Inr (Strings (fold env_file_item val []))"
| "resolveEnvFile (Strings val) = Inr (Strings val)"
| "resolveEnvFile v = Inl (UnsupportedType (type_name v))"

definition service_started :: DependsOnCondition where
  "service_started = \<lparr>Condition = ''service_started'', Restart = False\<rparr>"

fun depends_on_condition :: "yaml \<Rightarrow> DependsOnCondition" where
  "depends_on_condition (YMap condMap) =
     (let dc = (case map_of condMap ''condition'' of
                  Some c \<Rightarrow> service_started\<lparr>Condition := Sprintf_v c\<rparr>
                | None \<Rightarrow> service_started)
      in case map_of condMap ''restart'' of
           Some (YBool rb) \<Rightarrow> dc\<lparr>DependsOnCondition.Restart := rb\<rparr>
         | _ \<Rightarrow> dc)"
| "depends_on_condition cond = service_started"

fun resolveDependsOn :: "dyn \<Rightarrow> error + dyn" where
  "resolveDependsOn (Yaml YNil) = Inr (Yaml YNil)"
| "resolveDependsOn (Yaml (YSeq val)) =
     Inr (DependsOnMap
            (fold (\<lambda>item result. AList.update (Sprintf_v item) service_started result) val []))"
| "resolveDependsOn (Yaml (YMap val)) =
     Inr (DependsOnMap
            (fold (\<lambda>kv result. AList.update (fst kv) (depends_on_condition (snd kv)) result)
               val []))"
| "resolveDependsOn v = Inl (UnsupportedType (type_name v))"

fun resolveStringOrList :: "dyn \<Rightarrow> error + dyn" where
  "resolveStringOrList (Yaml YNil) = Inr (Yaml YNil)"
| "resolveStringOrList (Yaml (YStr val)) = Inr (Strings [val])"
| "resolveStringOrList (Yaml (YSeq val)) = Inr (Strings (map Sprintf_v val))"
| "resolveStringOrList (Strings val) = Inr (Strings val)"
| "resolveStringOrList v = Inl (UnsupportedType (type_name v))"

fun resolveNetworks :: "dyn \<Rightarrow> error + dyn" where
  "resolveNetworks (Yaml YNil) = Inr (Yaml YNil)"
| "resolveNetworks (Yaml (YSeq val)) =
     Inr (Yaml (YMap (fold (\<lambda>item result. AList.update (Sprintf_v item) YNil result) val [])))"
| "resolveNetworks (Yaml (YMap val)) = Inr (Yaml (YMap val))"
| "resolveNetworks v = Inl (UnsupportedType (type_name v))"

definition string_map :: "yaml \<Rightarrow> string gomap" where
  "string_map a =
     (case a of
        YMap argsMap \<Rightarrow>
          fold (\<lambda>kv result. AList.update (fst kv) (Sprintf_v (snd kv)) result) argsMap []
      | _ \<Rightarrow> [])"

definition build_field :: "yaml gomap \<Rightarrow> string \<Rightarrow> string" where
  "build_field val k = (case map_of val k of Some c \<Rightarrow> Sprintf_v c | None \<Rightarrow> [])"

fun resolveBuild :: "dyn \<Rightarrow> error + dyn" where
  "resolveBuild (Yaml YNil) = Inr (Yaml YNil)"
| "resolveBuild (BuildPtr val) = Inr (BuildPtr val)"
| "resolveBuild (Yaml (YStr val)) =
     Inr (BuildPtr \<lparr>Context = val, Dockerfile = [], Args = [], Target = [],
                    Labels = []\<rparr>)"
| "resolveBuild (Yaml (YMap val)) =
     Inr (BuildPtr
       \<lparr>Context = build_field val ''context'',
        Dockerfile = build_field val ''dockerfile'',
        Args = (case map_of val ''args'' of Some a \<Rightarrow> string_map a | None \<Rightarrow> []),
        Target = build_field val ''target'',
        Labels = (case map_of val ''labels'' of Some l \<Rightarrow> string_map l | None \<Rightarrow> [])\<rparr>)"
| "resolveBuild v = Inl (UnsupportedType (type_name v))"

text \<open>
  Lines 163-219: the fields are resolved one after the other, and the first failure is
  returned under the name of its field.
\<close>

definition field :: "string \<Rightarrow> error + dyn \<Rightarrow> (dyn \<Rightarrow> error + Service) \<Rightarrow> error + Service" where
  "field name r k = (case r of Inl err \<Rightarrow> Inl (FieldError name err) | Inr v \<Rightarrow> k v)"

definition resolveService :: "(string \<Rightarrow> string list) \<Rightarrow> env \<Rightarrow> Service \<Rightarrow> error + Service" where
  "resolveService Fields env svc =
     field ''command'' (resolveCommand Fields (Command svc)) (\<lambda>v1.
     field ''entrypoint'' (resolveCommand Fields (Entrypoint svc)) (\<lambda>v2.
     field ''environment'' (resolveEnvironment env (Environment svc)) (\<lambda>v3.
     field ''env_file'' (resolveEnvFile (EnvFile svc)) (\<lambda>v4.
     field ''depends_on'' (resolveDependsOn (DependsOn svc)) (\<lambda>v5.
     field ''dns'' (resolveStringOrList (DNS svc)) (\<lambda>v6.
     field ''dns_search'' (resolveStringOrList (DNSSearch svc)) (\<lambda>v7.
     field ''tmpfs'' (resolveStringOrList (Tmpfs svc)) (\<lambda>v8.
     field ''networks'' (resolveNetworks (Service.Networks svc)) (\<lambda>v9.
     field ''build'' (resolveBuild (Build svc)) (\<lambda>v10.
       Inr (svc\<lparr>Command := v1, Entrypoint := v2, Environment := v3, EnvFile := v4,
                DependsOn := v5, DNS := v6, DNSSearch := v7, Tmpfs := v8,
                Service.Networks := v9, Build := v10\<rparr>)))))))))))"

section \<open>Loader and merger (Load, mergeComposeFiles)\<close>

record IPAMConfig =
  Subnet :: string

record IPAM =
  Driver :: string
  Config :: "IPAMConfig list"

record Network =
  Driver :: string
  Internal :: bool
  External :: bool
  Name :: string
  Labels :: "string gomap"
  IPAM :: "IPAM option"

record VolumeConfig =
  Driver :: string
  External :: bool
  Name :: string
  Labels :: "string gomap"

text \<open>
  \<open>Services\<close> is never nil once \<open>parseComposeFile\<close> has returned, so it is a plain map;
  \<open>Networks\<close> and \<open>Volumes\<close> may be nil (\<open>None\<close>).
\<close>

record ComposeFile =
  Name :: string
  Services :: "Service gomap"
  Networks :: "Network gomap option"
  Volumes :: "VolumeConfig gomap option"

text \<open>
  What the loader takes from the operating system and from libraries: the working
  directory, the existence and the contents of files, the environment,
  \<open>yaml.Unmarshal\<close> into a \<open>ComposeFile\<close>, \<open>filepath.Join\<close> and \<open>strings.Fields\<close>. A failure
  carries its message.
\<close>

record host =
  Getwd :: "string + string"
  Stat :: "string \<Rightarrow> bool"
  ReadFile :: "string \<Rightarrow> string + string"
  Environ :: env
  Unmarshal :: "string \<Rightarrow> string + ComposeFile"
  Join :: "string \<Rightarrow> string \<Rightarrow> string"
  Fields :: "string \<Rightarrow> string list"

text \<open>\<open>filepath.IsAbs\<close> on Unix.\<close>

definition IsAbs :: "string \<Rightarrow> bool" where
  "IsAbs path \<longleftrightarrow> take 1 path = ''/''"




text \<open>
  Lines 129-138. A nil \<open>Services\<close> and an empty one are both \<open>[]\<close>, so the replacement of
  a nil map by an empty one does not show.
\<close>

definition parseComposeFile :: "host \<Rightarrow> string \<Rightarrow> string + ComposeFile" where
  "parseComposeFile h data =
     (case Unmarshal h data of Inl err \<Rightarrow> Inl err | Inr cf \<Rightarrow> Inr cf)"

text \<open>
  \<open>m[k] = v\<close> on an optional map. On a nil map Go panics; \<open>mergeComposeFiles\<close> writes
  only after \<open>make\<close>, or not at all when the source map is nil and has no entries.
\<close>

definition assign :: "string \<Rightarrow> 'v \<Rightarrow> 'v gomap option \<Rightarrow> 'v gomap option" where
  "assign k v m = map_option (AList.update k v) m"

definition entries :: "'v gomap option \<Rightarrow> 'v gomap" where
  "entries m = (case m of None \<Rightarrow> [] | Some es \<Rightarrow> es)"

definition merge_optional :: "'v gomap option \<Rightarrow> 'v gomap option \<Rightarrow> 'v gomap option" where
  "merge_optional dst src =
     fold (\<lambda>kv. assign (fst kv) (snd kv)) (entries src)
       (if dst = None \<and> src \<noteq> None then Some [] else dst)"

definition mergeComposeFiles :: "ComposeFile \<Rightarrow> ComposeFile \<Rightarrow> ComposeFile" where
  "mergeComposeFiles dst src =
     \<lparr>ComposeFile.Name =
        (if ComposeFile.Name src \<noteq> [] then ComposeFile.Name src else ComposeFile.Name dst),
      Services = fold (\<lambda>kv. AList.update (fst kv) (snd kv)) (Services src) (Services dst),
      Networks = merge_optional (ComposeFile.Networks dst) (ComposeFile.Networks src),
      Volumes = merge_optional (ComposeFile.Volumes dst) (ComposeFile.Volumes src)\<rparr>"

text \<open>Lines 43-58: one file is read, interpolated and parsed.\<close>

definition load_document :: "host \<Rightarrow> string \<Rightarrow> string \<Rightarrow> error + ComposeFile" where
  "load_document h projectDir f =
     (let path = (if IsAbs f then f else Join h projectDir f)
      in case ReadFile h path of
           Inl err \<Rightarrow> Inl (ReadError path err)
         | Inr data \<Rightarrow>
             (case parseComposeFile h (interpolateEnv (Environ h) data) of
                Inl err \<Rightarrow> Inl (ParseError path err)
              | Inr cf \<Rightarrow> Inr cf))"

text \<open>Lines 41-65: the documents are merged one by one, in the order of the files.\<close>

fun load_loop :: "host \<Rightarrow> string \<Rightarrow> string list \<Rightarrow> ComposeFile option \<Rightarrow> error + ComposeFile option" where
  "load_loop h projectDir [] merged = Inr merged"
| "load_loop h projectDir (f # files) merged =
     (case load_document h projectDir f of
        Inl e \<Rightarrow> Inl e
      | Inr cf \<Rightarrow>
          load_loop h projectDir files
            (Some (case merged of None \<Rightarrow> cf | Some m \<Rightarrow> mergeComposeFiles m cf)))"



section \<open>Build arguments (cmd/compose.go, composeBuildCLIArgs)\<close>

definition composeBuildCLIArgs ::
  "iteration \<Rightarrow> (string \<Rightarrow> string \<Rightarrow> string) \<Rightarrow> BuildConfig \<Rightarrow> string \<Rightarrow> string \<Rightarrow> string list"
where
  "composeBuildCLIArgs it pathJoin bc tag projectDir =
     (let args1 = [''build''] @ (if tag \<noteq> [] then [''--tag'', tag] else []);
          args2 = args1 @ (if Dockerfile bc \<noteq> [] then [''--file'', Dockerfile bc] else []);
          args3 = args2 @ (if Target bc \<noteq> [] then [''--target'', Target bc] else []);
          args4 = fold (\<lambda>k args. args @ [''--build-arg'', k @ ''='' @ index (Args bc) [] k])
                    (range_keys it (Loop 843) (Args bc)) args3;
          args5 = fold (\<lambda>k args. args @ [''--label'', k @ ''='' @ index (BuildConfig.Labels bc) [] k])
                    (range_keys it (Loop 846) (BuildConfig.Labels bc)) args4;
          buildContext = (if Context bc = [] then ''.'' else Context bc)
      in args5 @ [if \<not> IsAbs buildContext then pathJoin projectDir buildContext else buildContext])"

section \<open>Example values\<close>

text \<open>The zero value of \<open>Service\<close>, and a service that depends on the given names.\<close>

definition empty_service :: Service where
  "empty_service =
     \<lparr>Image = [], Build = Yaml YNil, Command = Yaml YNil, Entrypoint = Yaml YNil,
      Environment = Yaml YNil, EnvFile = Yaml YNil, Ports = [], Volumes = [],
      Networks = Yaml YNil, DependsOn = Yaml YNil, Restart = [], WorkingDir = [], User = [],
      Hostname = [], DNS = Yaml YNil, DNSSearch = Yaml YNil, ExtraHosts = [], Labels = [],
      StdinOpen = False, Tty = False, ReadOnly = False, Privileged = False, Init = False,
      Platform = [], CPUs = Yaml YNil, MemLimit = [], Tmpfs = Yaml YNil, Healthcheck = None,
      ContainerName = [], PullPolicy = [], StopSignal = [], StopGracePeriod = []\<rparr>"

definition depends_on :: "string list \<Rightarrow> Service" where
  "depends_on ds = empty_service\<lparr>DependsOn := DependsOnMap (map (\<lambda>d. (d, service_started)) ds)\<rparr>"

section \<open>Normalizer: properties\<close>

lemma map_of_environment_entries:
  "distinct (map fst val) \<Longrightarrow>
   map_of (fold (environment_entry env) val acc) k =
     (case map_of val k of
        Some v \<Rightarrow> Some (if v = YNil then Getenv env k else Sprintf_v v)
      | None \<Rightarrow> map_of acc k)"
proof (induction val arbitrary: acc)
  case Nil
  show ?case by simp
next
  case (Cons kv val)
  obtain k' v' where kv: "kv = (k', v')" by (cases kv)
  from Cons.prems have d: "distinct (map fst val)" and nin: "k' \<notin> fst ` set val"
    by (simp_all add: kv)
  have none: "map_of val k' = None" using nin by (simp add: map_of_eq_None_iff)
  show ?case
    using Cons.IH [OF d, of "environment_entry env kv acc"] none
    by (auto simp: kv environment_entry_def update_conv' split: option.splits)
qed

text \<open>
  Claim C9. In the mapping form of \<open>environment\<close>, a key whose value is null gets the
  value the process environment has for that key, and the empty string when the variable
  is not set (\<open>Getenv\<close>), as a bare key does in the list form.
\<close>

theorem environment_null_inherits:
  assumes "distinct (map fst val)" and "(k, YNil) \<in> set val"
  shows "\<exists>result. resolveEnvironment env (Yaml (YMap val)) = Inr (StringMap result)
           \<and> map_of result k = Some (Getenv env k)"
proof -
  from assms have "map_of val k = Some YNil" by simp
  then have "map_of (fold (environment_entry env) val []) k = Some (Getenv env k)"
    using map_of_environment_entries [OF assms(1), of env "[]" k] by simp
  then show ?thesis by simp
qed

theorem environment_null_inherits_witness:
  "distinct (map fst [(''HOME'', YNil), (''A'', YStr ''b'')])
   \<and> (''HOME'', YNil) \<in> set [(''HOME'', YNil), (''A'', YStr ''b'')]
   \<and> (\<exists>result. resolveEnvironment [''HOME'' \<mapsto> ''/root''] (Yaml (YMap [(''HOME'', YNil), (''A'', YStr ''b'')]))
           = Inr (StringMap result)
        \<and> map_of result ''HOME'' = Some (Getenv [''HOME'' \<mapsto> ''/root''] ''HOME''))"
  using environment_null_inherits [of "[(''HOME'', YNil), (''A'', YStr ''b'')]" "''HOME''" "[''HOME'' \<mapsto> ''/root'']"]
  by simp

lemma field_Inr: "field name r k = Inr x \<Longrightarrow> \<exists>v. r = Inr v \<and> k v = Inr x"
  by (cases r) (simp_all add: field_def)

lemma resolveService_Build:
  assumes "resolveService split env svc = Inr svc'"
  shows "resolveBuild (Build svc) = Inr (Build svc')"
proof -
  from assms obtain v1 v2 v3 v4 v5 v6 v7 v8 v9 v10 where
    b: "resolveBuild (Build svc) = Inr v10" and
    r: "svc' = svc\<lparr>Command := v1, Entrypoint := v2, Environment := v3, EnvFile := v4,
                DependsOn := v5, DNS := v6, DNSSearch := v7, Tmpfs := v8,
                Service.Networks := v9, Build := v10\<rparr>"
    unfolding resolveService_def
    by (fastforce dest!: field_Inr)
  show ?thesis by (simp add: b r)
qed

text \<open>
  Claim C8. A service whose \<open>build\<close> is a bare string is resolved to a build
  configuration with that string as its context; a build mapping without a \<open>context\<close>
  key is resolved to an empty context; and for an empty context the build command gets
  \<open>.\<close> joined to the project directory as its last argument.
\<close>

theorem build_string_is_context:
  "(Build svc = Yaml (YStr s) \<and> resolveService split env svc = Inr svc' \<longrightarrow>
      Build svc' = BuildPtr \<lparr>Context = s, Dockerfile = [], Args = [], Target = [], Labels = []\<rparr>)
   \<and> (map_of val ''context'' = None \<longrightarrow>
        (\<exists>bc. resolveBuild (Yaml (YMap val)) = Inr (BuildPtr bc) \<and> Context bc = []))
   \<and> (Context bc = [] \<longrightarrow>
        last (composeBuildCLIArgs it pathJoin bc tag projectDir) = pathJoin projectDir ''.'')"
proof (intro conjI impI)
  assume a: "Build svc = Yaml (YStr s) \<and> resolveService split env svc = Inr svc'"
  then show "Build svc' = BuildPtr \<lparr>Context = s, Dockerfile = [], Args = [], Target = [], Labels = []\<rparr>"
    using resolveService_Build [of split env svc svc'] by simp
next
  assume "map_of val ''context'' = None"
  then show "\<exists>bc. resolveBuild (Yaml (YMap val)) = Inr (BuildPtr bc) \<and> Context bc = []"
    by (simp add: build_field_def)
next
  assume "Context bc = []"
  then show "last (composeBuildCLIArgs it pathJoin bc tag projectDir) = pathJoin projectDir ''.''"
    by (simp add: composeBuildCLIArgs_def Let_def IsAbs_def)
qed

theorem build_string_is_context_witness:
  "(Build (empty_service\<lparr>Build := Yaml (YStr ''./app'')\<rparr>) = Yaml (YStr ''./app'')
    \<and> resolveService (\<lambda>s. [s]) Map.empty (empty_service\<lparr>Build := Yaml (YStr ''./app'')\<rparr>)
        = Inr (empty_service\<lparr>Build := BuildPtr \<lparr>Context = ''./app'', Dockerfile = [], Args = [], Target = [], Labels = []\<rparr>\<rparr>))
   \<and> Build (empty_service\<lparr>Build := BuildPtr \<lparr>Context = ''./app'', Dockerfile = [], Args = [], Target = [], Labels = []\<rparr>\<rparr>)
       = BuildPtr \<lparr>Context = ''./app'', Dockerfile = [], Args = [], Target = [], Labels = []\<rparr>
   \<and> map_of [(''dockerfile'', YStr ''Dockerfile.dev'')] ''context'' = None
   \<and> (\<exists>bc. resolveBuild (Yaml (YMap [(''dockerfile'', YStr ''Dockerfile.dev'')])) = Inr (BuildPtr bc) \<and> Context bc = [])
   \<and> Context \<lparr>Context = [], Dockerfile = ''Dockerfile.dev'', Args = [], Target = [], Labels = []\<rparr> = []
   \<and> last (composeBuildCLIArgs (\<lambda>s ks. ks) (\<lambda>a b. a @ ''/'' @ b)
              \<lparr>Context = [], Dockerfile = ''Dockerfile.dev'', Args = [], Target = [], Labels = []\<rparr> ''web'' ''/proj'')
       = ''/proj/.''"
  using build_string_is_context [of "empty_service\<lparr>Build := Yaml (YStr ''./app'')\<rparr>" "''./app''" "\<lambda>s. [s]" Map.empty
      "empty_service\<lparr>Build := BuildPtr \<lparr>Context = ''./app'', Dockerfile = [], Args = [], Target = [], Labels = []\<rparr>\<rparr>"
      "[(''dockerfile'', YStr ''Dockerfile.dev'')]"
      "\<lparr>Context = [], Dockerfile = ''Dockerfile.dev'', Args = [], Target = [], Labels = []\<rparr>"
      "\<lambda>s ks. ks" "\<lambda>a b. a @ ''/'' @ b" "''web''" "''/proj''"]
  by (simp add: resolveService_def field_def empty_service_def)

section \<open>Interpolation: properties\<close>

lemma strings_Index_sound:
  "strings_Index s sub = Some i \<Longrightarrow> take (length sub) (drop i s) = sub"
proof (induction s arbitrary: i)
  case Nil
  then show ?case by (simp split: if_splits)
next
  case (Cons c s)
  show ?case
  proof (cases "take (length sub) (c # s) = sub")
    case True
    with Cons.prems show ?thesis by simp
  next
    case False
    with Cons.prems obtain j where j: "strings_Index s sub = Some j" and i: "i = Suc j"
      by auto
    from Cons.IH [OF j] show ?thesis by (simp add: i)
  qed
qed

lemma strings_Index_absent:
  assumes "c \<in> set sub" and "c \<notin> set s"
  shows "strings_Index s sub = None"
proof (rule ccontr)
  assume "strings_Index s sub \<noteq> None"
  then obtain i where "strings_Index s sub = Some i" by auto
  then have "take (length sub) (drop i s) = sub" by (rule strings_Index_sound)
  then have "set sub \<subseteq> set s"
    by (metis set_drop_subset set_take_subset subset_trans)
  with assms show False by auto
qed

lemma strings_Index_dash:
  "CHR ''-'' \<notin> set X \<Longrightarrow> strings_Index (X @ ''-'' @ d) ''-'' = Some (length X)"
  by (induction X) auto

lemma strings_Index_colon_dash:
  "strings_Index X '':-'' = None \<Longrightarrow> strings_Index (X @ '':-'' @ d) '':-'' = Some (length X)"
proof (induction X)
  case Nil
  show ?case by simp
next
  case (Cons c X)
  from Cons.prems have ne: "take 2 (c # X) \<noteq> '':-''" and rest: "strings_Index X '':-'' = None"
    by (auto split: if_splits)
  have "take 2 (c # X @ '':-'' @ d) \<noteq> '':-''"
    using ne by (cases X) auto
  with Cons.IH [OF rest] show ?case by simp
qed

lemma expand_plain:
  assumes "CHR ''-'' \<notin> set X"
  shows "expand env X = (case env X of Some v \<Rightarrow> v | None \<Rightarrow> [])"
proof -
  have "strings_Index X '':-'' = None" "strings_Index X ''-'' = None"
    using assms by (auto intro: strings_Index_absent [where c = "CHR ''-''"])
  then show ?thesis by (simp add: expand_def Getenv_def)
qed

lemma expand_colon_dash:
  assumes "strings_Index X '':-'' = None"
  shows "expand env (X @ '':-'' @ d) = (case env X of Some v \<Rightarrow> if v \<noteq> [] then v else d | None \<Rightarrow> d)"
  using strings_Index_colon_dash [OF assms, of d]
  by (simp add: expand_def split: option.splits)

lemma expand_dash:
  assumes "CHR ''-'' \<notin> set X" and "strings_Index (X @ ''-'' @ d) '':-'' = None"
  shows "expand env (X @ ''-'' @ d) = (case env X of Some v \<Rightarrow> v | None \<Rightarrow> d)"
  using strings_Index_dash [OF assms(1), of d] assms(2)
  by (simp add: expand_def split: option.splits)

lemma interpolateEnv_match:
  assumes "inner \<noteq> []" and "CHR ''}'' \<notin> set inner"
  shows "interpolateEnv env (''${'' @ inner @ ''}'' @ rest) = expand env inner @ interpolateEnv env rest"
proof -
  have all: "\<forall>x\<in>set inner. not_brace x" using assms(2) by (auto simp: not_brace_def)
  have t: "takeWhile not_brace (inner @ CHR ''}'' # rest) = inner"
    using all by (simp add: takeWhile_append2 not_brace_def)
  have d: "dropWhile not_brace (inner @ CHR ''}'' # rest) = CHR ''}'' # rest"
    using all by (simp add: dropWhile_append2 not_brace_def)
  show ?thesis using assms(1) by (simp add: t d)
qed

lemma strings_Index_dollar_snoc:
  "strings_Index pre ''${'' = None \<Longrightarrow> strings_Index (pre @ ''$'') ''${'' = None"
proof (induction pre)
  case Nil
  show ?case by simp
next
  case (Cons c pre)
  from Cons.prems have ne: "take 2 (c # pre) \<noteq> ''${''" and rest: "strings_Index pre ''${'' = None"
    by (auto split: if_splits)
  have "take 2 (c # pre @ ''$'') \<noteq> ''${''"
    using ne by (cases pre) auto
  with Cons.IH [OF rest] show ?case by simp
qed

lemma interpolateEnv_copy:
  "strings_Index (pre @ take 1 s) ''${'' = None \<Longrightarrow>
   interpolateEnv env (pre @ s) = pre @ interpolateEnv env s"
proof (induction pre)
  case Nil
  show ?case by simp
next
  case (Cons c pre)
  from Cons.prems have ne: "take 2 (c # pre @ take 1 s) \<noteq> ''${''"
    and rest: "strings_Index (pre @ take 1 s) ''${'' = None"
    by (auto split: if_splits)
  have "\<not> (c = CHR ''$'' \<and> take 1 (pre @ s) = ''{'')"
    using ne by (cases pre; cases s) auto
  then have "interpolateEnv env (c # pre @ s) = c # interpolateEnv env (pre @ s)"
    by auto
  with Cons.IH [OF rest] show ?case by simp
qed

lemma interpolateEnv_before_reference:
  assumes "strings_Index pre ''${'' = None"
  shows "interpolateEnv env (pre @ ''${'' @ s) = pre @ interpolateEnv env (''${'' @ s)"
proof -
  have "strings_Index (pre @ take 1 (''${'' @ s)) ''${'' = None"
    using strings_Index_dollar_snoc [OF assms] by simp
  then show ?thesis by (rule interpolateEnv_copy)
qed

lemma interpolateEnv_unchanged:
  assumes "strings_Index s ''${'' = None"
  shows "interpolateEnv env s = s"
  using interpolateEnv_copy [of s "[]" env] assms by simp

lemma interpolateEnv_no_match:
  assumes "takeWhile not_brace s = [] \<or> CHR ''}'' \<notin> set s"
  shows "interpolateEnv env (''${'' @ s) = ''$'' @ interpolateEnv env (''{'' @ s)"
proof -
  have "takeWhile not_brace s = [] \<or> dropWhile not_brace s = []"
    using assms by (auto simp: dropWhile_eq_Nil_conv not_brace_def)
  then show ?thesis by auto
qed


text \<open>
  Claim C6. For every text: the text before the first \<open>${\<close> is copied, dollar signs
  included. If that \<open>${\<close> is followed by at least one character other than \<open>}\<close> and then
  by \<open>}\<close>, the reference \<open>${inner}\<close> is replaced by its expansion and the scan goes on behind
  the closing brace, without scanning the expansion again; otherwise the \<open>$\<close> is copied and
  the scan goes on behind it. A text without \<open>${\<close> is unchanged. The expansion of \<open>X\<close> is
  the value of \<open>X\<close>, empty when \<open>X\<close> is not set; of \<open>X:-d\<close> it is \<open>d\<close> when \<open>X\<close> is not set
  or empty, and the value of \<open>X\<close> otherwise; of \<open>X-d\<close> it is the value of \<open>X\<close> whenever \<open>X\<close>
  is set, even to the empty string, and \<open>d\<close> otherwise. The first \<open>:-\<close> decides, also when
  a \<open>-\<close> comes before it.
\<close>

theorem interpolation_forms:
  "(strings_Index pre ''${'' = None \<and> inner \<noteq> [] \<and> CHR ''}'' \<notin> set inner \<longrightarrow>
      interpolateEnv env (pre @ ''${'' @ inner @ ''}'' @ rest)
        = pre @ expand env inner @ interpolateEnv env rest)
   \<and> (strings_Index pre ''${'' = None
        \<and> (takeWhile not_brace s = [] \<or> CHR ''}'' \<notin> set s) \<longrightarrow>
      interpolateEnv env (pre @ ''${'' @ s) = pre @ ''$'' @ interpolateEnv env (''{'' @ s))
   \<and> (strings_Index pre ''${'' = None \<longrightarrow> interpolateEnv env pre = pre)
   \<and> (CHR ''-'' \<notin> set X \<longrightarrow>
        expand env X = (case env X of Some v \<Rightarrow> v | None \<Rightarrow> []))
   \<and> (strings_Index Y '':-'' = None \<longrightarrow>
        expand env (Y @ '':-'' @ d)
          = (case env Y of Some v \<Rightarrow> if v \<noteq> [] then v else d | None \<Rightarrow> d))
   \<and> (CHR ''-'' \<notin> set X \<and> strings_Index (X @ ''-'' @ d) '':-'' = None \<longrightarrow>
        expand env (X @ ''-'' @ d) = (case env X of Some v \<Rightarrow> v | None \<Rightarrow> d))"
proof (intro conjI impI)
  assume a: "strings_Index pre ''${'' = None \<and> inner \<noteq> [] \<and> CHR ''}'' \<notin> set inner"
  then have "interpolateEnv env (pre @ ''${'' @ inner @ ''}'' @ rest)
      = pre @ interpolateEnv env (''${'' @ inner @ ''}'' @ rest)"
    by (intro interpolateEnv_before_reference) simp
  also have "interpolateEnv env (''${'' @ inner @ ''}'' @ rest) = expand env inner @ interpolateEnv env rest"
    using a by (intro interpolateEnv_match) simp_all
  finally show "interpolateEnv env (pre @ ''${'' @ inner @ ''}'' @ rest)
        = pre @ expand env inner @ interpolateEnv env rest" .
next
  assume a: "strings_Index pre ''${'' = None
        \<and> (takeWhile not_brace s = [] \<or> CHR ''}'' \<notin> set s)"
  then have "interpolateEnv env (pre @ ''${'' @ s) = pre @ interpolateEnv env (''${'' @ s)"
    by (intro interpolateEnv_before_reference) simp
  also have "interpolateEnv env (''${'' @ s) = ''$'' @ interpolateEnv env (''{'' @ s)"
    using a by (intro interpolateEnv_no_match) simp
  finally show "interpolateEnv env (pre @ ''${'' @ s) = pre @ ''$'' @ interpolateEnv env (''{'' @ s)" .
next
  assume "strings_Index pre ''${'' = None"
  then show "interpolateEnv env pre = pre" by (rule interpolateEnv_unchanged)
next
  assume "CHR ''-'' \<notin> set X"
  then show "expand env X = (case env X of Some v \<Rightarrow> v | None \<Rightarrow> [])"
    by (rule expand_plain)
next
  assume "strings_Index Y '':-'' = None"
  then show "expand env (Y @ '':-'' @ d)
          = (case env Y of Some v \<Rightarrow> if v \<noteq> [] then v else d | None \<Rightarrow> d)"
    by (rule expand_colon_dash)
next
  assume "CHR ''-'' \<notin> set X \<and> strings_Index (X @ ''-'' @ d) '':-'' = None"
  then show "expand env (X @ ''-'' @ d) = (case env X of Some v \<Rightarrow> v | None \<Rightarrow> d)"
    by (intro expand_dash) blast+
qed

theorem interpolation_forms_witness:
  "strings_Index ''echo $HOME $$ '' ''${'' = None \<and> ''A-B:-x'' \<noteq> [] \<and> CHR ''}'' \<notin> set ''A-B:-x''
   \<and> interpolateEnv [''E'' \<mapsto> []] (''echo $HOME $$ '' @ ''${'' @ ''A-B:-x'' @ ''}'' @ '' ${E-y}${E:-z}${U}'')
        = ''echo $HOME $$ '' @ expand [''E'' \<mapsto> []] ''A-B:-x'' @ interpolateEnv [''E'' \<mapsto> []] '' ${E-y}${E:-z}${U}''
   \<and> takeWhile not_brace ''} ${open'' = []
   \<and> interpolateEnv [''E'' \<mapsto> []] (''echo $HOME $$ '' @ ''${'' @ ''} ${open'')
        = ''echo $HOME $$ '' @ ''$'' @ interpolateEnv [''E'' \<mapsto> []] (''{'' @ ''} ${open'')
   \<and> interpolateEnv [''E'' \<mapsto> []] ''echo $HOME $$ '' = ''echo $HOME $$ ''
   \<and> CHR ''-'' \<notin> set ''E''
   \<and> expand [''E'' \<mapsto> []] ''E'' = []
   \<and> strings_Index ''A-B'' '':-'' = None
   \<and> expand [''E'' \<mapsto> []] (''A-B'' @ '':-'' @ ''x'') = ''x''
   \<and> strings_Index (''E'' @ ''-'' @ ''x'') '':-'' = None
   \<and> expand [''E'' \<mapsto> []] (''E'' @ ''-'' @ ''x'') = []"
  using interpolation_forms [of "''echo $HOME $$ ''" "''A-B:-x''" "[''E'' \<mapsto> []]"
      "'' ${E-y}${E:-z}${U}''" "''} ${open''" "''E''" "''A-B''" "''x''"]
  by (simp add: not_brace_def)

lemma interpolateEnv_stray_dollar: "interpolateEnv [''DB'' \<mapsto> ''pg''] ''$5 ${DB} ${} ${x'' = ''$5 pg ${} ${x''"
  by (simp add: expand_def not_brace_def Getenv_def)

section \<open>Merging: properties\<close>

text \<open>
  The merge claim in its own words: the name of the merged document is the last non-empty
  name of the later documents (the first document's name when there is none), and the
  entry of a key is the entry that the last document with that key gives it.
\<close>

definition spec_merged_name :: "string \<Rightarrow> string list \<Rightarrow> string" where
  "spec_merged_name first later =
     (if filter (\<lambda>n. n \<noteq> []) later = [] then first
      else last (filter (\<lambda>n. n \<noteq> []) later))"

definition spec_merged_entry :: "'v gomap list \<Rightarrow> string \<Rightarrow> 'v option" where
  "spec_merged_entry maps k =
     (if filter (\<lambda>m. k \<in> fst ` set m) maps = [] then None
      else map_of (last (filter (\<lambda>m. k \<in> fst ` set m) maps)) k)"

definition wf_document :: "ComposeFile \<Rightarrow> bool" where
  "wf_document cf \<longleftrightarrow>
     distinct (map fst (Services cf))
     \<and> distinct (map fst (entries (ComposeFile.Networks cf)))
     \<and> distinct (map fst (entries (ComposeFile.Volumes cf)))"

lemma map_of_fold_update:
  "distinct (map fst src) \<Longrightarrow>
   map_of (fold (\<lambda>kv. AList.update (fst kv) (snd kv)) src dst) k =
     (if k \<in> fst ` set src then map_of src k else map_of dst k)"
proof (induction src arbitrary: dst)
  case Nil
  show ?case by simp
next
  case (Cons kv src)
  from Cons.prems have d: "distinct (map fst src)" and nin: "fst kv \<notin> fst ` set src"
    by simp_all
  show ?case
    using Cons.IH [OF d, of "AList.update (fst kv) (snd kv) dst"] nin
    by (auto simp: update_conv')
qed

lemma fold_assign_Some:
  "fold (\<lambda>kv. assign (fst kv) (snd kv)) src (Some dst) =
     Some (fold (\<lambda>kv. AList.update (fst kv) (snd kv)) src dst)"
  by (induction src arbitrary: dst) (simp_all add: assign_def)

lemma entries_merge_optional:
  "entries (merge_optional dst src) =
     fold (\<lambda>kv. AList.update (fst kv) (snd kv)) (entries src) (entries dst)"
proof (cases src)
  case None
  then show ?thesis by (simp add: merge_optional_def entries_def)
next
  case (Some es)
  then show ?thesis
    by (cases dst) (simp_all add: merge_optional_def entries_def fold_assign_Some)
qed

lemma map_of_merge_optional:
  "distinct (map fst (entries src)) \<Longrightarrow>
   map_of (entries (merge_optional dst src)) k =
     (if k \<in> fst ` set (entries src) then map_of (entries src) k else map_of (entries dst) k)"
  by (simp only: entries_merge_optional map_of_fold_update)

lemma distinct_fold_update:
  "distinct (map fst dst) \<Longrightarrow>
   distinct (map fst (fold (\<lambda>kv. AList.update (fst kv) (snd kv)) src dst))"
  by (induction src arbitrary: dst) (simp_all add: distinct_update)

lemma spec_merged_entry_snoc:
  "spec_merged_entry (maps @ [m]) k =
     (if k \<in> fst ` set m then map_of m k else spec_merged_entry maps k)"
  by (simp add: spec_merged_entry_def)

lemma spec_merged_entry_Cons_snoc:
  "spec_merged_entry (m0 # maps @ [m]) k =
     (if k \<in> fst ` set m then map_of m k else spec_merged_entry (m0 # maps) k)"
  using spec_merged_entry_snoc [of "m0 # maps" m k] by simp

lemma spec_merged_name_snoc:
  "spec_merged_name first (later @ [n]) = (if n \<noteq> [] then n else spec_merged_name first later)"
  by (simp add: spec_merged_name_def)

lemma spec_merged_entry_single:
  "spec_merged_entry [m] k = map_of m k"
proof (cases "k \<in> fst ` set m")
  case True
  then show ?thesis by (simp add: spec_merged_entry_def)
next
  case False
  then have "map_of m k = None" by (simp add: map_of_eq_None_iff)
  with False show ?thesis by (simp add: spec_merged_entry_def)
qed

lemma mergeComposeFiles_sel:
  "ComposeFile.Name (mergeComposeFiles dst src) =
     (if ComposeFile.Name src \<noteq> [] then ComposeFile.Name src else ComposeFile.Name dst)"
  "Services (mergeComposeFiles dst src) =
     fold (\<lambda>kv. AList.update (fst kv) (snd kv)) (Services src) (Services dst)"
  "ComposeFile.Networks (mergeComposeFiles dst src) =
     merge_optional (ComposeFile.Networks dst) (ComposeFile.Networks src)"
  "ComposeFile.Volumes (mergeComposeFiles dst src) =
     merge_optional (ComposeFile.Volumes dst) (ComposeFile.Volumes src)"
  by (simp_all add: mergeComposeFiles_def)

lemma foldl_merge_properties:
  assumes "\<forall>cf\<in>set later. wf_document cf"
  shows "ComposeFile.Name (foldl mergeComposeFiles first later)
           = spec_merged_name (ComposeFile.Name first) (map ComposeFile.Name later)
       \<and> map_of (Services (foldl mergeComposeFiles first later)) k
           = spec_merged_entry (map Services (first # later)) k
       \<and> map_of (entries (ComposeFile.Networks (foldl mergeComposeFiles first later))) k
           = spec_merged_entry (map (\<lambda>cf. entries (ComposeFile.Networks cf)) (first # later)) k
       \<and> map_of (entries (ComposeFile.Volumes (foldl mergeComposeFiles first later))) k
           = spec_merged_entry (map (\<lambda>cf. entries (ComposeFile.Volumes cf)) (first # later)) k"
  using assms
proof (induction later rule: rev_induct)
  case Nil
  show ?case by (simp add: spec_merged_name_def spec_merged_entry_single)
next
  case (snoc cf later)
  then have IH: "ComposeFile.Name (foldl mergeComposeFiles first later)
           = spec_merged_name (ComposeFile.Name first) (map ComposeFile.Name later)"
       "map_of (Services (foldl mergeComposeFiles first later)) k
           = spec_merged_entry (map Services (first # later)) k"
       "map_of (entries (ComposeFile.Networks (foldl mergeComposeFiles first later))) k
           = spec_merged_entry (map (\<lambda>cf. entries (ComposeFile.Networks cf)) (first # later)) k"
       "map_of (entries (ComposeFile.Volumes (foldl mergeComposeFiles first later))) k
           = spec_merged_entry (map (\<lambda>cf. entries (ComposeFile.Volumes cf)) (first # later)) k"
    by simp_all
  from snoc.prems have wf: "wf_document cf" by simp
  have app: "\<And>f. map f (first # later @ [cf]) = map f (first # later) @ [f cf]" by simp
  have step: "foldl mergeComposeFiles first (later @ [cf])
      = mergeComposeFiles (foldl mergeComposeFiles first later) cf" by simp
  show ?case
    unfolding step
    using wf IH
    by (simp add: mergeComposeFiles_sel map_of_fold_update spec_merged_name_snoc
        spec_merged_entry_Cons_snoc map_of_merge_optional wf_document_def)
qed

lemma load_loop_foldl:
  "list_all2 (\<lambda>f cf. load_document h dir f = Inr cf) files docs \<Longrightarrow>
   load_loop h dir files (Some m) = Inr (Some (foldl mergeComposeFiles m docs))"
proof (induction files arbitrary: docs m)
  case Nil
  then show ?case by simp
next
  case (Cons f files)
  then obtain cf rest where docs: "docs = cf # rest" and f: "load_document h dir f = Inr cf"
    and rest: "list_all2 (\<lambda>f cf. load_document h dir f = Inr cf) files rest"
    by (auto simp: list_all2_Cons1)
  show ?case using Cons.IH [OF rest] by (simp add: docs f)
qed

text \<open>
  Claim C7. When the files load to the documents \<open>first # later\<close>, the loop of \<open>Load\<close>
  returns \<open>first\<close> merged with the later documents from left to right: its name is the
  last non-empty name of the later documents, or that of \<open>first\<close>; and under every key
  of \<open>services\<close>, \<open>networks\<close> and \<open>volumes\<close> it has the whole entry of the last document
  that has the key, so that entries of earlier documents stay unless a later document
  has the same key, and entries of later documents are present.
\<close>

theorem merge_left_to_right:
  assumes "list_all2 (\<lambda>f cf. load_document h dir f = Inr cf) (f # files) (first # later)"
    and "\<forall>cf\<in>set later. wf_document cf"
  shows "\<exists>merged. load_loop h dir (f # files) None = Inr (Some merged)
     \<and> merged = foldl mergeComposeFiles first later
     \<and> ComposeFile.Name merged = spec_merged_name (ComposeFile.Name first) (map ComposeFile.Name later)
     \<and> map_of (Services merged) k = spec_merged_entry (map Services (first # later)) k
     \<and> map_of (entries (ComposeFile.Networks merged)) k
         = spec_merged_entry (map (\<lambda>cf. entries (ComposeFile.Networks cf)) (first # later)) k
     \<and> map_of (entries (ComposeFile.Volumes merged)) k
         = spec_merged_entry (map (\<lambda>cf. entries (ComposeFile.Volumes cf)) (first # later)) k"
proof -
  from assms(1) have f: "load_document h dir f = Inr first"
    and rest: "list_all2 (\<lambda>f cf. load_document h dir f = Inr cf) files later"
    by simp_all
  have "load_loop h dir (f # files) None = Inr (Some (foldl mergeComposeFiles first later))"
    using load_loop_foldl [OF rest, of first] by (simp add: f)
  with foldl_merge_properties [OF assms(2), of first k] show ?thesis by simp
qed

definition base_document :: ComposeFile where
  "base_document =
     \<lparr>ComposeFile.Name = ''app'',
      Services = [(''web'', empty_service\<lparr>Image := ''nginx''\<rparr>),
                  (''db'', empty_service\<lparr>Image := ''postgres''\<rparr>)],
      Networks = None, Volumes = None\<rparr>"

definition override_document :: ComposeFile where
  "override_document =
     \<lparr>ComposeFile.Name = [],
      Services = [(''web'', empty_service\<lparr>Image := ''nginx:2''\<rparr>),
                  (''cache'', empty_service\<lparr>Image := ''redis''\<rparr>)],
      Networks = Some [(''front'', \<lparr>Network.Driver = ''bridge'', Internal = False, External = False,
                          Name = [], Labels = [], IPAM = None\<rparr>)],
      Volumes = None\<rparr>"

definition broken_document :: ComposeFile where
  "broken_document =
     \<lparr>ComposeFile.Name = [],
      Services = [(''web'', empty_service\<lparr>Image := ''nginx'',
                                            DependsOn := Yaml (YSeq [YStr ''db''])\<rparr>)],
      Networks = None, Volumes = None\<rparr>"

definition example_host :: host where
  "example_host =
     \<lparr>Getwd = Inr ''/proj'',
      Stat = (\<lambda>path. False),
      ReadFile = (\<lambda>path. if path = ''/proj/base.yml'' then Inr ''base''
                          else if path = ''/proj/override.yml'' then Inr ''override''
                          else if path = ''/proj/broken.yml'' then Inr ''broken''
                          else Inl ''no such file or directory''),
      Environ = Map.empty,
      Unmarshal = (\<lambda>data. if data = ''base'' then Inr base_document
                           else if data = ''override'' then Inr override_document
                           else if data = ''broken'' then Inr broken_document
                           else Inl ''yaml: unmarshal errors''),
      Join = (\<lambda>dir name. dir @ ''/'' @ name),
      Fields = (\<lambda>s. [s])\<rparr>"

lemma load_base: "load_document example_host ''/proj'' ''base.yml'' = Inr base_document"
  by (simp add: load_document_def IsAbs_def example_host_def parseComposeFile_def)

lemma load_override: "load_document example_host ''/proj'' ''override.yml'' = Inr override_document"
  by (simp add: load_document_def IsAbs_def example_host_def parseComposeFile_def)

lemma wf_override: "wf_document override_document"
  by (simp add: wf_document_def override_document_def entries_def)

theorem merge_left_to_right_witness:
  "list_all2 (\<lambda>f cf. load_document example_host ''/proj'' f = Inr cf)
     [''base.yml'', ''override.yml''] [base_document, override_document]
   \<and> wf_document override_document
   \<and> (\<exists>merged. load_loop example_host ''/proj'' [''base.yml'', ''override.yml''] None = Inr (Some merged)
        \<and> ComposeFile.Name merged = ''app''
        \<and> map_of (Services merged) ''web'' = Some (empty_service\<lparr>Image := ''nginx:2''\<rparr>)
        \<and> map_of (Services merged) ''db'' = Some (empty_service\<lparr>Image := ''postgres''\<rparr>)
        \<and> map_of (Services merged) ''cache'' = Some (empty_service\<lparr>Image := ''redis''\<rparr>))"
proof -
  have h1: "list_all2 (\<lambda>f cf. load_document example_host ''/proj'' f = Inr cf)
     [''base.yml'', ''override.yml''] [base_document, override_document]"
    by (simp add: load_base load_override)
  have h2: "\<forall>cf\<in>set [override_document]. wf_document cf"
    by (simp add: wf_override)
  have ev: "spec_merged_name (ComposeFile.Name base_document) [ComposeFile.Name override_document] = ''app''"
    "spec_merged_entry [Services base_document, Services override_document] ''web'' = Some (empty_service\<lparr>Image := ''nginx:2''\<rparr>)"
    "spec_merged_entry [Services base_document, Services override_document] ''db'' = Some (empty_service\<lparr>Image := ''postgres''\<rparr>)"
    "spec_merged_entry [Services base_document, Services override_document] ''cache'' = Some (empty_service\<lparr>Image := ''redis''\<rparr>)"
    by (simp_all add: spec_merged_name_def spec_merged_entry_def base_document_def override_document_def)
  show ?thesis
    using merge_left_to_right [OF h1 h2, of "''web''"] merge_left_to_right [OF h1 h2, of "''db''"]
      merge_left_to_right [OF h1 h2, of "''cache''"] h1 wf_override
    by (simp add: ev)
qed

section \<open>Dependency graph: the maps built before the loop\<close>

text \<open>
  The vocabulary of the claims: the names a service depends on are the keys of its
  \<open>DependsOn\<close> when that is a \<open>map[string]DependsOnCondition\<close>; a services map is
  well formed when its keys, and the keys of every such \<open>DependsOn\<close>, are distinct, as
  the keys of a Go map are.
\<close>

definition dependencies :: "Service \<Rightarrow> string list" where
  "dependencies svc = (case DependsOn svc of DependsOnMap d \<Rightarrow> map fst d | _ \<Rightarrow> [])"

definition depends :: "Service gomap \<Rightarrow> string \<Rightarrow> string set" where
  "depends services name =
     (case map_of services name of Some svc \<Rightarrow> set (dependencies svc) | None \<Rightarrow> {})"

definition wf_services :: "Service gomap \<Rightarrow> bool" where
  "wf_services services \<longleftrightarrow>
     distinct (map fst services) \<and> (\<forall>svc\<in>snd ` set services. distinct (dependencies svc))"

definition references_defined :: "Service gomap \<Rightarrow> bool" where
  "references_defined services \<longleftrightarrow>
     (\<forall>name. depends services name \<subseteq> fst ` set services)"

text \<open>
  \<open>holds m K f\<close>: the association list \<open>m\<close> is a Go map with the keys \<open>K\<close> and the value
  \<open>f k\<close> under every key \<open>k\<close>.
\<close>

definition holds :: "'v gomap \<Rightarrow> string set \<Rightarrow> (string \<Rightarrow> 'v) \<Rightarrow> bool" where
  "holds m K f \<longleftrightarrow>
     distinct (map fst m) \<and> fst ` set m = K \<and> (\<forall>k\<in>K. map_of m k = Some (f k))"

lemma holds_index: "holds m K f \<Longrightarrow> index m z k = (if k \<in> K then f k else z)"
proof (cases "k \<in> K")
  case True
  assume "holds m K f"
  with True show ?thesis by (simp add: holds_def index_def)
next
  case False
  assume "holds m K f"
  with False have "map_of m k = None" by (simp add: holds_def map_of_eq_None_iff)
  with False show ?thesis by (simp add: index_def)
qed

lemma holds_update:
  assumes "holds m K f"
  shows "holds (AList.update k v m) (insert k K) (f(k := v))"
proof -
  have "distinct (map fst (AList.update k v m))"
    using assms by (simp add: holds_def distinct_update)
  moreover have "fst ` set (AList.update k v m) = insert k K"
    using assms by (simp add: holds_def dom_update [symmetric] del: dom_update) (simp add: dom_update dom_map_of_conv_image_fst)
  moreover have "\<forall>j\<in>insert k K. map_of (AList.update k v m) j = Some ((f(k := v)) j)"
    using assms by (simp add: holds_def update_conv')
  ultimately show ?thesis by (simp add: holds_def)
qed

lemma holds_update_in: "holds m K f \<Longrightarrow> k \<in> K \<Longrightarrow> holds (AList.update k v m) K (f(k := v))"
  using holds_update [of m K f k v] by (simp add: insert_absorb)

lemma holds_cong: "holds m K f \<Longrightarrow> (\<And>k. k \<in> K \<Longrightarrow> f k = g k) \<Longrightarrow> holds m K g"
  by (simp add: holds_def)

lemma holds_empty: "holds [] {} f"
  by (simp add: holds_def)

lemma go_iteration_set: "go_iteration it \<Longrightarrow> set (it s ks) = set ks"
  by (metis go_iteration_def mset_eq_setD)

lemma go_iteration_distinct: "go_iteration it \<Longrightarrow> distinct (it s ks) = distinct ks"
  by (metis go_iteration_def mset_eq_imp_distinct_iff)

lemma range_keys_holds:
  assumes "go_iteration it" and "holds m K f"
  shows "set (range_keys it s m) = K" and "distinct (range_keys it s m)"
  using assms by (simp_all add: range_keys_def go_iteration_set go_iteration_distinct holds_def)

lemma services_holds:
  "distinct (map fst services) \<Longrightarrow> holds services (fst ` set services) (\<lambda>k. the (map_of services k))"
  by (auto simp: holds_def map_of_eq_None_iff)

text \<open>A loop that stores a constant under every key it visits.\<close>

lemma holds_fold_const:
  "holds m K f \<Longrightarrow>
   holds (fold (\<lambda>name m. AList.update name c m) ks m) (K \<union> set ks)
     (\<lambda>k. if k \<in> set ks then c else f k)"
proof (induction ks arbitrary: m K f)
  case Nil
  then show ?case by simp
next
  case (Cons a ks)
  have "holds (fold (\<lambda>name m. AList.update name c m) ks (AList.update a c m))
          (insert a K \<union> set ks) (\<lambda>k. if k \<in> set ks then c else (f(a := c)) k)"
    by (rule Cons.IH [OF holds_update [OF Cons.prems]])
  moreover have "(\<lambda>k. if k \<in> set ks then c else (f(a := c)) k)
      = (\<lambda>k. if k \<in> set (a # ks) then c else f k)"
    by (auto simp: fun_eq_iff)
  moreover have "insert a K \<union> set ks = K \<union> set (a # ks)" by auto
  ultimately show ?case by simp
qed

text \<open>A loop that replaces the value under every key it visits by a function of it.\<close>

lemma holds_fold_map:
  "holds m K f \<Longrightarrow> set ks \<subseteq> K \<Longrightarrow> distinct ks \<Longrightarrow>
   holds (fold (\<lambda>name m. AList.update name (g (index m z name)) m) ks m) K
     (\<lambda>k. if k \<in> set ks then g (f k) else f k)"
proof (induction ks arbitrary: m f)
  case Nil
  then show ?case by simp
next
  case (Cons a ks)
  from Cons.prems have a: "a \<in> K" and ks: "set ks \<subseteq> K" and d: "distinct ks" and na: "a \<notin> set ks"
    by simp_all
  have ia: "index m z a = f a" using holds_index [OF Cons.prems(1)] a by simp
  have h: "holds (AList.update a (g (f a)) m) K (f(a := g (f a)))"
    by (rule holds_update_in [OF Cons.prems(1) a])
  have "(\<lambda>k. if k \<in> set ks then g ((f(a := g (f a))) k) else (f(a := g (f a))) k)
      = (\<lambda>k. if k \<in> set (a # ks) then g (f k) else f k)"
    using na by (auto simp: fun_eq_iff)
  with Cons.IH [OF h ks d] show ?case by (simp add: ia)
qed

text \<open>The keys of the \<open>DependsOn\<close> map of a service, in the order the inner loop visits them.\<close>

definition visited :: "iteration \<Rightarrow> Service gomap \<Rightarrow> string \<Rightarrow> string list" where
  "visited it services name =
     (case map_of services name of
        Some svc \<Rightarrow>
          (case DependsOn svc of
             DependsOnMap d \<Rightarrow> range_keys it (LoopIn 23 name) d
           | _ \<Rightarrow> [])
      | None \<Rightarrow> [])"

definition dep_list :: "Service gomap \<Rightarrow> string \<Rightarrow> string list" where
  "dep_list services name =
     sort (case map_of services name of Some svc \<Rightarrow> dependencies svc | None \<Rightarrow> [])"

lemma mset_visited:
  "go_iteration it \<Longrightarrow>
   mset (visited it services name)
     = mset (case map_of services name of Some svc \<Rightarrow> dependencies svc | None \<Rightarrow> [])"
  by (simp add: visited_def dependencies_def range_keys_def go_iteration_def
      split: option.splits dyn.splits yaml.splits)

lemma set_visited: "go_iteration it \<Longrightarrow> set (visited it services name) = depends services name"
proof -
  assume "go_iteration it"
  then have "set (visited it services name)
      = set (case map_of services name of Some svc \<Rightarrow> dependencies svc | None \<Rightarrow> [])"
    by (metis mset_visited mset_eq_setD)
  then show ?thesis by (simp add: depends_def split: option.splits)
qed

lemma sort_visited: "go_iteration it \<Longrightarrow> sort (visited it services name) = dep_list services name"
proof -
  assume "go_iteration it"
  then have "mset (dep_list services name) = mset (visited it services name)"
    by (simp add: dep_list_def mset_visited)
  moreover have "sorted (dep_list services name)" by (simp add: dep_list_def)
  ultimately show ?thesis by (rule properties_for_sort)
qed

lemma set_dep_list: "set (dep_list services name) = depends services name"
  by (simp add: dep_list_def depends_def split: option.splits)

lemma distinct_dep_list: "wf_services services \<Longrightarrow> distinct (dep_list services name)"
proof (cases "map_of services name")
  case None
  then show ?thesis by (simp add: dep_list_def)
next
  case (Some svc)
  assume wf: "wf_services services"
  from Some have "(name, svc) \<in> set services" by (rule map_of_SomeD)
  with wf have "distinct (dependencies svc)" by (force simp: wf_services_def)
  with Some show ?thesis by (simp add: dep_list_def)
qed

lemma depends_on_loop_defined:
  "\<forall>dep\<in>set ds. map_of services dep \<noteq> None \<Longrightarrow> holds deps K f \<Longrightarrow> name \<in> K \<Longrightarrow>
   \<exists>deps'. depends_on_loop services name ds deps = Inr deps'
     \<and> holds deps' K (f(name := f name @ ds))"
proof (induction ds arbitrary: deps f)
  case Nil
  then show ?case by simp
next
  case (Cons dep ds)
  have i: "index deps [] name = f name"
    using holds_index [OF Cons.prems(2)] Cons.prems(3) by simp
  have h: "holds (AList.update name (f name @ [dep]) deps) K (f(name := f name @ [dep]))"
    by (rule holds_update_in [OF Cons.prems(2,3)])
  from Cons.prems(1) have d: "\<forall>dep\<in>set ds. map_of services dep \<noteq> None" and dd: "map_of services dep \<noteq> None"
    by simp_all
  have "(f(name := f name @ [dep]))(name := (f(name := f name @ [dep])) name @ ds)
      = f(name := f name @ dep # ds)"
    by simp
  with Cons.IH [OF d h Cons.prems(3)] have
    "\<exists>deps'. depends_on_loop services name ds (AList.update name (f name @ [dep]) deps) = Inr deps'
       \<and> holds deps' K (f(name := f name @ dep # ds))"
    by (simp only:)
  with dd show ?case by (simp only: depends_on_loop.simps i if_False)
qed

lemma depends_on_loop_Inl:
  "depends_on_loop services name ds deps = Inl e \<Longrightarrow>
   \<exists>dep\<in>set ds. map_of services dep = None \<and> e = UndefinedDependency name dep"
  by (induction ds arbitrary: deps) (auto split: if_splits)

lemma depends_on_loop_Inr:
  "depends_on_loop services name ds deps = Inr deps' \<Longrightarrow>
   \<forall>dep\<in>set ds. map_of services dep \<noteq> None"
  by (induction ds arbitrary: deps) (auto split: if_splits)

lemma services_loop_Cons:
  "services_loop it services (name # rest) deps =
     (case depends_on_loop services name (visited it services name) deps of
        Inl e \<Rightarrow> Inl e
      | Inr deps' \<Rightarrow> services_loop it services rest deps')"
  by (simp add: visited_def split: option.splits dyn.splits yaml.splits)

lemma services_loop_Inl:
  "services_loop it services ks deps = Inl e \<Longrightarrow>
   \<exists>n\<in>set ks. \<exists>dep\<in>set (visited it services n).
     map_of services dep = None \<and> e = UndefinedDependency n dep"
proof (induction ks arbitrary: deps)
  case Nil
  then show ?case by simp
next
  case (Cons name ks)
  show ?case
  proof (cases "depends_on_loop services name (visited it services name) deps")
    case (Inl e')
    with Cons.prems have "e' = e" by (simp add: services_loop_Cons del: services_loop.simps)
    with depends_on_loop_Inl [OF Inl] show ?thesis by auto
  next
    case (Inr deps')
    with Cons.prems have "services_loop it services ks deps' = Inl e"
      by (simp add: services_loop_Cons del: services_loop.simps)
    from Cons.IH [OF this] show ?thesis by auto
  qed
qed

lemma services_loop_Inr:
  "services_loop it services ks deps = Inr deps' \<Longrightarrow>
   \<forall>n\<in>set ks. \<forall>dep\<in>set (visited it services n). map_of services dep \<noteq> None"
proof (induction ks arbitrary: deps)
  case Nil
  then show ?case by simp
next
  case (Cons name ks)
  show ?case
  proof (cases "depends_on_loop services name (visited it services name) deps")
    case (Inl e')
    with Cons.prems show ?thesis by (simp add: services_loop_Cons del: services_loop.simps)
  next
    case (Inr deps1)
    with Cons.prems have "services_loop it services ks deps1 = Inr deps'"
      by (simp add: services_loop_Cons del: services_loop.simps)
    from Cons.IH [OF this] depends_on_loop_Inr [OF Inr] show ?thesis by auto
  qed
qed

lemma services_loop_defined:
  "\<forall>n\<in>set ks. \<forall>dep\<in>set (visited it services n). map_of services dep \<noteq> None \<Longrightarrow>
   holds deps K f \<Longrightarrow> set ks \<subseteq> K \<Longrightarrow> distinct ks \<Longrightarrow>
   \<exists>deps'. services_loop it services ks deps = Inr deps'
     \<and> holds deps' K (\<lambda>n. if n \<in> set ks then f n @ visited it services n else f n)"
proof (induction ks arbitrary: deps f)
  case Nil
  then show ?case by simp
next
  case (Cons name ks)
  from Cons.prems have here: "\<forall>dep\<in>set (visited it services name). map_of services dep \<noteq> None"
    and later: "\<forall>n\<in>set ks. \<forall>dep\<in>set (visited it services n). map_of services dep \<noteq> None"
    and name: "name \<in> K" and ks: "set ks \<subseteq> K" and d: "distinct ks" and nin: "name \<notin> set ks"
    by simp_all
  from depends_on_loop_defined [OF here Cons.prems(2) name]
  obtain deps1 where r1: "depends_on_loop services name (visited it services name) deps = Inr deps1"
    and h1: "holds deps1 K (f(name := f name @ visited it services name))"
    by blast
  from Cons.IH [OF later h1 ks d]
  obtain deps' where r2: "services_loop it services ks deps1 = Inr deps'"
    and h2: "holds deps' K (\<lambda>n. if n \<in> set ks
               then (f(name := f name @ visited it services name)) n @ visited it services n
               else (f(name := f name @ visited it services name)) n)"
    by blast
  have "(\<lambda>n. if n \<in> set ks
               then (f(name := f name @ visited it services name)) n @ visited it services n
               else (f(name := f name @ visited it services name)) n)
      = (\<lambda>n. if n \<in> set (name # ks) then f n @ visited it services n else f n)"
    using nin by (auto simp: fun_eq_iff)
  with h2 r1 r2 show ?case by (simp add: services_loop_Cons del: services_loop.simps)
qed

lemma map_of_None_iff_key: "map_of m k = None \<longleftrightarrow> k \<notin> fst ` set m"
  by (simp add: map_of_eq_None_iff)

lemma build_deps_defined:
  assumes it: "go_iteration it" and wf: "wf_services services" and defined: "references_defined services"
  shows "\<exists>deps. build_deps it services = Inr deps
           \<and> holds deps (fst ` set services) (dep_list services)"
proof -
  let ?K = "fst ` set services"
  let ?ks = "\<lambda>n. range_keys it (Loop n) services"
  have ks: "\<And>n. set (?ks n) = ?K" "\<And>n. distinct (?ks n)"
    using it wf by (simp_all add: range_keys_def go_iteration_set go_iteration_distinct wf_services_def)
  let ?deps0 = "fold (\<lambda>name deps. AList.update name [] deps) (?ks 13) []"
  have "holds ?deps0 ({} \<union> set (?ks 13)) (\<lambda>k. if k \<in> set (?ks 13) then [] else undefined)"
    by (rule holds_fold_const [OF holds_empty])
  then have "holds ?deps0 ?K (\<lambda>k. if k \<in> ?K then [] else undefined)"
    by (simp add: ks)
  then have h0: "holds ?deps0 ?K (\<lambda>k. [])"
    by (rule holds_cong) simp
  have all: "\<forall>n\<in>set (?ks 17). \<forall>dep\<in>set (visited it services n). map_of services dep \<noteq> None"
    using defined by (auto simp: set_visited [OF it] references_defined_def map_of_None_iff_key)
  from services_loop_defined [OF all h0] ks
  obtain deps1 where r1: "services_loop it services (?ks 17) ?deps0 = Inr deps1"
    and h1: "holds deps1 ?K (\<lambda>n. if n \<in> set (?ks 17) then [] @ visited it services n else [])"
    by blast
  have ks33: "set (range_keys it (Loop 33) deps1) \<subseteq> ?K" "distinct (range_keys it (Loop 33) deps1)"
    using range_keys_holds [OF it h1] by simp_all
  let ?deps = "fold (\<lambda>name deps. AList.update name (sort (index deps [] name)) deps)
                 (range_keys it (Loop 33) deps1) deps1"
  have "holds ?deps ?K (\<lambda>k. if k \<in> set (range_keys it (Loop 33) deps1)
          then sort (if k \<in> set (?ks 17) then [] @ visited it services k else [])
          else (if k \<in> set (?ks 17) then [] @ visited it services k else []))"
    by (rule holds_fold_map [OF h1 ks33])
  then have "holds ?deps ?K (dep_list services)"
    by (rule holds_cong) (simp add: range_keys_holds [OF it h1] ks sort_visited [OF it])
  then show ?thesis
    using r1 by (simp add: build_deps_def Let_def)
qed

lemma build_deps_undefined:
  assumes it: "go_iteration it" and undefined: "\<not> references_defined services"
  shows "\<exists>name dep. build_deps it services = Inl (UndefinedDependency name dep)
           \<and> dep \<in> depends services name \<and> dep \<notin> fst ` set services"
proof -
  let ?deps0 = "fold (\<lambda>name deps. AList.update name [] deps) (range_keys it (Loop 13) services) []"
  let ?ks = "range_keys it (Loop 17) services"
  from undefined obtain name dep where dep: "dep \<in> depends services name" "dep \<notin> fst ` set services"
    by (auto simp: references_defined_def)
  then have "map_of services name \<noteq> None" by (auto simp: depends_def)
  then have "name \<in> set ?ks"
    using it by (simp add: range_keys_def go_iteration_set map_of_None_iff_key)
  with dep have bad: "\<not> (\<forall>n\<in>set ?ks. \<forall>dep\<in>set (visited it services n). map_of services dep \<noteq> None)"
    using it by (auto simp: set_visited map_of_None_iff_key)
  obtain e where e: "services_loop it services ?ks ?deps0 = Inl e"
    using bad services_loop_Inr [of it services ?ks ?deps0]
    by (cases "services_loop it services ?ks ?deps0") blast+
  from services_loop_Inl [OF e] obtain n d where
    "d \<in> set (visited it services n)" "map_of services d = None" "e = UndefinedDependency n d"
    by blast
  then show ?thesis
    using e it by (auto simp: build_deps_def Let_def set_visited map_of_None_iff_key)
qed

text \<open>The reverse adjacency list: who depends on \<open>c\<close>, in sorted order.\<close>

definition children :: "Service gomap \<Rightarrow> string \<Rightarrow> string list" where
  "children services c = sort (filter (\<lambda>n. c \<in> depends services n) (map fst services))"

lemma index_add_dependent:
  "index (add_dependent name dep dpt) [] d =
     (if d = dep then index dpt [] dep @ [name] else index dpt [] d)"
  by (simp add: add_dependent_def index_update)

lemma index_fold_add_dependent:
  "distinct ds \<Longrightarrow>
   index (fold (add_dependent name) ds dpt) [] d =
     index dpt [] d @ (if d \<in> set ds then [name] else [])"
proof (induction ds arbitrary: dpt)
  case Nil
  show ?case by simp
next
  case (Cons a ds)
  then have d: "distinct ds" and na: "a \<notin> set ds" by simp_all
  show ?case
    using Cons.IH [OF d, of "add_dependent name a dpt"] na
    by (auto simp: index_add_dependent)
qed

definition degree_step ::
  "string list gomap \<Rightarrow> string \<Rightarrow> int gomap \<times> string list gomap \<Rightarrow> int gomap \<times> string list gomap"
where
  "degree_step deps name s =
     (AList.update name (int (length (index deps [] name))) (fst s),
      fold (add_dependent name) (index deps [] name) (snd s))"

lemma build_degrees_alt:
  "build_degrees it services deps =
     fold (degree_step deps) (range_keys it (Loop 45) deps)
       (fold (\<lambda>name inDegree. AList.update name 0 inDegree) (range_keys it (Loop 42) services) [], [])"
proof -
  have "(\<lambda>name (inDegree, dependents).
                 (AList.update name (int (length (index deps [] name))) inDegree,
                  fold (add_dependent name) (index deps [] name) dependents)) = degree_step deps"
    by (auto simp: fun_eq_iff degree_step_def)
  then show ?thesis by (simp add: build_degrees_def Let_def)
qed

lemma fold_degree_step:
  assumes deps: "holds deps K D" and dist: "\<And>n. distinct (D n)"
  shows "holds ind K g \<Longrightarrow> set ks \<subseteq> K \<Longrightarrow> distinct ks \<Longrightarrow>
   (\<forall>d. distinct (index dpt [] d) \<and> set (index dpt [] d) \<inter> set ks = {}) \<Longrightarrow>
   holds (fst (fold (degree_step deps) ks (ind, dpt))) K
       (\<lambda>n. if n \<in> set ks then int (length (D n)) else g n)
   \<and> (\<forall>d. distinct (index (snd (fold (degree_step deps) ks (ind, dpt))) [] d)
         \<and> set (index (snd (fold (degree_step deps) ks (ind, dpt))) [] d)
             = set (index dpt [] d) \<union> {n \<in> set ks. d \<in> set (D n)})"
proof (induction ks arbitrary: ind dpt g)
  case Nil
  then show ?case by simp
next
  case (Cons a ks)
  from Cons.prems have a: "a \<in> K" and ks: "set ks \<subseteq> K" and d: "distinct ks" and na: "a \<notin> set ks"
    by simp_all
  have ia: "index deps [] a = D a" using holds_index [OF deps] a by simp
  let ?ind = "AList.update a (int (length (D a))) ind"
  let ?dpt = "fold (add_dependent a) (D a) dpt"
  have step: "degree_step deps a (ind, dpt) = (?ind, ?dpt)"
    by (simp add: degree_step_def ia)
  have h: "holds ?ind K (g(a := int (length (D a))))"
    by (rule holds_update_in [OF Cons.prems(1) a])
  have idx: "\<And>d. index ?dpt [] d = index dpt [] d @ (if d \<in> set (D a) then [a] else [])"
    by (rule index_fold_add_dependent [OF dist])
  have p: "\<forall>d. distinct (index ?dpt [] d) \<and> set (index ?dpt [] d) \<inter> set ks = {}"
    using Cons.prems(4) na by (auto simp: idx)
  have fe: "(\<lambda>n. if n \<in> set ks then int (length (D n)) else (g(a := int (length (D a)))) n)
      = (\<lambda>n. if n \<in> set (a # ks) then int (length (D n)) else g n)"
    by (auto simp: fun_eq_iff)
  have se: "\<And>d. set (index ?dpt [] d) \<union> {n \<in> set ks. d \<in> set (D n)}
      = set (index dpt [] d) \<union> {n \<in> set (a # ks). d \<in> set (D n)}"
    by (auto simp: idx)
  from Cons.IH [OF h ks d p] show ?case
    unfolding fold_simps step fe se .
qed

lemma build_degrees_holds:
  assumes it: "go_iteration it" and dk: "distinct (map fst services)"
    and deps: "holds deps (fst ` set services) D" and dist: "\<And>n. distinct (D n)"
  shows "holds (fst (build_degrees it services deps)) (fst ` set services) (\<lambda>n. int (length (D n)))"
    and "distinct (index (snd (build_degrees it services deps)) [] d)"
    and "set (index (snd (build_degrees it services deps)) [] d)
           = {n \<in> fst ` set services. d \<in> set (D n)}"
proof -
  let ?K = "fst ` set services"
  let ?ind0 = "fold (\<lambda>name inDegree. AList.update name 0 inDegree) (range_keys it (Loop 42) services) []"
  let ?ks = "range_keys it (Loop 45) deps"
  have k42: "set (range_keys it (Loop 42) services) = ?K"
    using it by (simp add: range_keys_def go_iteration_set)
  have "holds ?ind0 ({} \<union> set (range_keys it (Loop 42) services))
          (\<lambda>k. if k \<in> set (range_keys it (Loop 42) services) then 0 else undefined)"
    by (rule holds_fold_const [OF holds_empty])
  then have h0: "holds ?ind0 ?K (\<lambda>k. if k \<in> ?K then 0 else undefined)"
    by (simp add: k42)
  have ks: "set ?ks \<subseteq> ?K" "distinct ?ks" "set ?ks = ?K"
    using range_keys_holds [OF it deps] by simp_all
  have p: "\<forall>d. distinct (index ([] :: string list gomap) [] d) \<and> set (index ([] :: string list gomap) [] d) \<inter> set ?ks = {}"
    by (simp add: index_def)
  from fold_degree_step [OF deps dist h0 ks(1,2) p]
  have r: "holds (fst (build_degrees it services deps)) ?K
             (\<lambda>n. if n \<in> set ?ks then int (length (D n)) else (if n \<in> ?K then 0 else undefined))"
    and s: "\<And>d. distinct (index (snd (build_degrees it services deps)) [] d)
         \<and> set (index (snd (build_degrees it services deps)) [] d)
             = set (index ([] :: string list gomap) [] d) \<union> {n \<in> set ?ks. d \<in> set (D n)}"
    unfolding build_degrees_alt by blast+
  show "holds (fst (build_degrees it services deps)) ?K (\<lambda>n. int (length (D n)))"
    by (rule holds_cong [OF r]) (simp add: ks(3))
  show "distinct (index (snd (build_degrees it services deps)) [] d)"
    using s by blast
  show "set (index (snd (build_degrees it services deps)) [] d) = {n \<in> ?K. d \<in> set (D n)}"
    using s [of d] by (simp add: ks(3) index_def)
qed

lemma sort_children:
  assumes "distinct (map fst services)" and "distinct cs"
    and "set cs = {n \<in> fst ` set services. c \<in> depends services n}"
  shows "sort cs = children services c"
proof -
  have "distinct (filter (\<lambda>n. c \<in> depends services n) (map fst services))"
    using assms(1) by simp
  moreover have "set (filter (\<lambda>n. c \<in> depends services n) (map fst services)) = set cs"
    using assms(3) by auto
  ultimately have "mset (filter (\<lambda>n. c \<in> depends services n) (map fst services)) = mset cs"
    using assms(2) by (metis set_eq_iff_mset_eq_distinct)
  then have "mset (children services c) = mset cs" by (simp add: children_def)
  moreover have "sorted (children services c)" by (simp add: children_def)
  ultimately show ?thesis by (rule properties_for_sort)
qed

lemma children_loop_holds:
  "distinct cs \<Longrightarrow> holds ind K f \<Longrightarrow> set cs \<subseteq> K \<Longrightarrow>
   holds (fst (children_loop cs (ind, q))) K (\<lambda>n. if n \<in> set cs then f n - 1 else f n)
   \<and> snd (children_loop cs (ind, q)) = q @ filter (\<lambda>n. f n = 1) cs"
proof (induction cs arbitrary: ind f q)
  case Nil
  then show ?case by simp
next
  case (Cons c cs)
  from Cons.prems have d: "distinct cs" and nc: "c \<notin> set cs" and c: "c \<in> K" and cs: "set cs \<subseteq> K"
    by simp_all
  have ic: "index ind 0 c = f c" using holds_index [OF Cons.prems(2)] c by simp
  have h: "holds (AList.update c (f c - 1) ind) K (f(c := f c - 1))"
    by (rule holds_update_in [OF Cons.prems(2) c])
  have fe: "(\<lambda>n. if n \<in> set cs then (f(c := f c - 1)) n - 1 else (f(c := f c - 1)) n)
      = (\<lambda>n. if n \<in> set (c # cs) then f n - 1 else f n)"
    using nc by (auto simp: fun_eq_iff)
  have fl: "filter (\<lambda>n. (f(c := f c - 1)) n = 1) cs = filter (\<lambda>n. f n = 1) cs"
    using nc by (auto intro: filter_cong)
  from Cons.IH [OF d h cs, of "if f c - 1 = 0 then q @ [c] else q"]
  show ?case
    unfolding children_loop_Cons ic fe fl by auto
qed

section \<open>Dependency graph: the invariant of Kahn's loop\<close>

text \<open>
  While the loop runs, the services in the order or in the queue are those whose
  dependencies are all in the order already; the in-degree of a service is the number of
  its dependencies that are not in the order yet; and every service in the order comes
  after its dependencies.
\<close>

definition kahn_inv :: "Service gomap \<Rightarrow> string list \<Rightarrow> string list \<Rightarrow> (string \<Rightarrow> int) \<Rightarrow> bool" where
  "kahn_inv services queue order f \<longleftrightarrow>
     distinct (order @ queue)
     \<and> set (order @ queue) = {n \<in> fst ` set services. depends services n \<subseteq> set order}
     \<and> (\<forall>n\<in>fst ` set services. f n = int (card (depends services n - set order)))
     \<and> (\<forall>i<length order. depends services (order ! i) \<subseteq> set (take i order))"

lemma finite_depends: "finite (depends services n)"
  by (simp add: depends_def split: option.splits)

lemma set_children:
  "set (children services c) = {n \<in> fst ` set services. c \<in> depends services n}"
  by (auto simp: children_def)

lemma distinct_children: "distinct (map fst services) \<Longrightarrow> distinct (children services c)"
  by (simp add: children_def)

lemma card_Diff_one:
  assumes "finite A" and "c \<in> A" and "c \<notin> B"
  shows "int (card (A - insert c B)) = int (card (A - B)) - 1"
proof -
  have e: "A - insert c B = (A - B) - {c}" by auto
  have m: "c \<in> A - B" using assms by simp
  have fin: "finite (A - B)" using assms by simp
  have "0 < card (A - B)" using m fin by (auto simp: card_gt_0_iff)
  moreover have "card ((A - B) - {c}) = card (A - B) - 1"
    using m by (simp add: card_Diff_singleton)
  ultimately show ?thesis unfolding e by linarith
qed

lemma card_one_member:
  assumes "finite A" and "c \<in> A"
  shows "int (card A) = 1 \<longleftrightarrow> A = {c}"
proof
  assume "int (card A) = 1"
  then have "card A = 1" by simp
  then obtain x where "A = {x}" by (auto simp: card_1_singleton_iff)
  with assms(2) show "A = {c}" by simp
next
  assume "A = {c}"
  then show "int (card A) = 1" by simp
qed

lemma kahn_step:
  assumes inv: "kahn_inv services (c # q) out f" and dk: "distinct (map fst services)"
  shows "kahn_inv services (q @ filter (\<lambda>n. f n = 1) (children services c)) (out @ [c])
           (\<lambda>n. if n \<in> set (children services c) then f n - 1 else f n)"
proof -
  let ?K = "fst ` set services"
  let ?P = "depends services"
  let ?cs = "children services c"
  let ?new = "filter (\<lambda>n. f n = 1) ?cs"
  from inv have d: "distinct (out @ c # q)"
    and s: "set (out @ c # q) = {n \<in> ?K. ?P n \<subseteq> set out}"
    and f0: "\<forall>n\<in>?K. f n = int (card (?P n - set out))"
    and o0: "\<forall>i<length out. ?P (out ! i) \<subseteq> set (take i out)"
    unfolding kahn_inv_def by blast+
  have f: "\<And>n. n \<in> ?K \<Longrightarrow> f n = int (card (?P n - set out))" using f0 by blast
  have o: "\<And>i. i < length out \<Longrightarrow> ?P (out ! i) \<subseteq> set (take i out)" using o0 by blast
  from s have cK: "c \<in> ?K" and cP: "?P c \<subseteq> set out" by auto
  from d have cout: "c \<notin> set out" and cq: "c \<notin> set q" by auto
  have one: "\<And>n. n \<in> set ?cs \<Longrightarrow> f n = 1 \<longleftrightarrow> ?P n - set out = {c}"
  proof -
    fix n assume n: "n \<in> set ?cs"
    then have "n \<in> ?K" and "c \<in> ?P n - set out" using cout by (auto simp: set_children)
    then show "f n = 1 \<longleftrightarrow> ?P n - set out = {c}"
      using card_one_member [of "?P n - set out" c] finite_depends [of services n] f [of n]
      by simp
  qed
  have new: "set ?new = {n \<in> ?K. c \<in> ?P n \<and> ?P n - set out = {c}}"
    using one by (auto simp: set_children)
  have fresh: "set ?new \<inter> set (out @ c # q) = {}"
    unfolding s new using cout by auto
  have 1: "distinct ((out @ [c]) @ q @ ?new)"
    using d fresh distinct_children [OF dk, of c] by auto
  have 2: "set ((out @ [c]) @ q @ ?new) = {n \<in> ?K. ?P n \<subseteq> set (out @ [c])}"
  proof -
    have "set ((out @ [c]) @ q @ ?new) = set (out @ c # q) \<union> set ?new" by auto
    also have "\<dots> = {n \<in> ?K. ?P n \<subseteq> set out} \<union> {n \<in> ?K. c \<in> ?P n \<and> ?P n - set out = {c}}"
      by (simp only: s new)
    also have "\<dots> = {n \<in> ?K. ?P n \<subseteq> set (out @ [c])}"
      using cout by auto
    finally show ?thesis .
  qed
  have 3: "\<forall>n\<in>?K. (if n \<in> set ?cs then f n - 1 else f n) = int (card (?P n - set (out @ [c])))"
  proof
    fix n assume n: "n \<in> ?K"
    show "(if n \<in> set ?cs then f n - 1 else f n) = int (card (?P n - set (out @ [c])))"
    proof (cases "c \<in> ?P n")
      case True
      then have "n \<in> set ?cs" using n by (simp add: set_children)
      moreover have "int (card (?P n - insert c (set out))) = int (card (?P n - set out)) - 1"
        by (rule card_Diff_one [OF finite_depends True cout])
      ultimately show ?thesis using f [OF n] by simp
    next
      case False
      then have "n \<notin> set ?cs" by (simp add: set_children)
      moreover have "?P n - insert c (set out) = ?P n - set out" using False by auto
      ultimately show ?thesis using f [OF n] by simp
    qed
  qed
  have 4: "\<forall>i<length (out @ [c]). ?P ((out @ [c]) ! i) \<subseteq> set (take i (out @ [c]))"
  proof (intro allI impI)
    fix i assume "i < length (out @ [c])"
    then consider "i < length out" | "i = length out" by fastforce
    then show "?P ((out @ [c]) ! i) \<subseteq> set (take i (out @ [c]))"
    proof cases
      case 1
      then show ?thesis using o [OF 1] by (simp add: nth_append)
    next
      case 2
      then show ?thesis using cP by simp
    qed
  qed
  show ?thesis
    unfolding kahn_inv_def using 1 2 3 4 by blast
qed

lemma kahn_loop_inv:
  assumes dk: "distinct (map fst services)"
  shows "(\<forall>c. distinct (index dependents [] c)
                \<and> set (index dependents [] c) = {n \<in> fst ` set services. c \<in> depends services n}) \<Longrightarrow>
    kahn_inv services queue order f \<Longrightarrow> holds inDegree (fst ` set services) f \<Longrightarrow>
    \<exists>f'. kahn_inv services [] (fst (kahn_loop dependents queue order inDegree)) f'
        \<and> holds (snd (kahn_loop dependents queue order inDegree)) (fst ` set services) f'"
proof (induction dependents queue order inDegree arbitrary: f rule: kahn_loop.induct)
  case (1 dependents order inDegree)
  then show ?case by auto
next
  case (2 dependents current queue order inDegree)
  let ?cs = "sort (index dependents [] current)"
  have cs: "?cs = children services current"
    using "2.prems"(1) by (intro sort_children [OF dk]) simp_all
  have sub: "set (children services current) \<subseteq> fst ` set services"
    by (auto simp: set_children)
  from children_loop_holds [where q = queue and cs = "children services current",
      OF distinct_children [OF dk] "2.prems"(3) sub]
  have h: "holds (fst (children_loop ?cs (inDegree, queue))) (fst ` set services)
             (\<lambda>n. if n \<in> set (children services current) then f n - 1 else f n)"
    and q: "snd (children_loop ?cs (inDegree, queue))
             = queue @ filter (\<lambda>n. f n = 1) (children services current)"
    by (simp_all add: cs)
  have inv: "kahn_inv services (snd (children_loop ?cs (inDegree, queue))) (order @ [current])
               (\<lambda>n. if n \<in> set (children services current) then f n - 1 else f n)"
    unfolding q by (rule kahn_step [OF "2.prems"(2) dk])
  from "2.IH" [OF "2.prems"(1) inv h] show ?case by simp
qed

section \<open>Dependency graph: what ResolveOrder returns\<close>

text \<open>\<open>before order d s\<close>: \<open>d\<close> stands strictly before \<open>s\<close> in \<open>order\<close>.\<close>

definition before :: "string list \<Rightarrow> string \<Rightarrow> string \<Rightarrow> bool" where
  "before order d s \<longleftrightarrow> (\<exists>i j. i < j \<and> j < length order \<and> order ! i = d \<and> order ! j = s)"

definition topological :: "Service gomap \<Rightarrow> string list \<Rightarrow> bool" where
  "topological services order \<longleftrightarrow>
     distinct order \<and> set order = fst ` set services
     \<and> (\<forall>s d. d \<in> depends services s \<longrightarrow> before order d s)"

definition dependency_graph :: "Service gomap \<Rightarrow> (string \<times> string) set" where
  "dependency_graph services = {(d, s). d \<in> depends services s}"

definition has_topological_order :: "Service gomap \<Rightarrow> bool" where
  "has_topological_order services \<longleftrightarrow> (\<exists>order. topological services order)"

lemma before_irrefl: "distinct order \<Longrightarrow> \<not> before order n n"
  by (auto simp: before_def nth_eq_iff_index_eq)

lemma before_trans:
  assumes "distinct order" and "before order a b" and "before order b c"
  shows "before order a c"
proof -
  from assms(2) obtain i j where ij: "i < j" "j < length order" "order ! i = a" "order ! j = b"
    by (auto simp: before_def)
  from assms(3) obtain k l where kl: "k < l" "l < length order" "order ! k = b" "order ! l = c"
    by (auto simp: before_def)
  have "k < length order" using kl by simp
  then have "j = k" using assms(1) ij kl by (metis nth_eq_iff_index_eq)
  with ij kl show ?thesis unfolding before_def by (metis less_trans)
qed

lemma before_in_set: "before order d s \<Longrightarrow> d \<in> set order \<and> s \<in> set order"
proof -
  assume "before order d s"
  then obtain i j where "i < j" "j < length order" "order ! i = d" "order ! j = s"
    by (auto simp: before_def)
  then show ?thesis by (metis less_trans nth_mem)
qed

lemma inv_before:
  assumes "kahn_inv services [] order f" and "s \<in> set order" and "d \<in> depends services s"
  shows "before order d s"
proof -
  from assms(2) obtain j where j: "j < length order" "order ! j = s"
    by (auto simp: in_set_conv_nth)
  with assms(1) have "depends services s \<subseteq> set (take j order)"
    by (auto simp: kahn_inv_def)
  with assms(3) have "d \<in> set (take j order)" by blast
  then obtain i where "i < length (take j order)" "take j order ! i = d"
    by (auto simp: in_set_conv_nth)
  then have "i < j" "order ! i = d" by simp_all
  with j show ?thesis by (auto simp: before_def)
qed

lemma inv_distinct: "kahn_inv services [] order f \<Longrightarrow> distinct order"
  by (simp add: kahn_inv_def)

lemma inv_set:
  "kahn_inv services [] order f \<Longrightarrow>
   set order = {n \<in> fst ` set services. depends services n \<subseteq> set order}"
  by (simp add: kahn_inv_def)

lemma inv_graph_before:
  assumes inv: "kahn_inv services [] order f"
  shows "(d, s) \<in> (dependency_graph services)\<^sup>+ \<Longrightarrow> s \<in> set order \<Longrightarrow> before order d s"
proof (induction rule: trancl_induct)
  case (base y)
  then show ?case using inv_before [OF inv] by (simp add: dependency_graph_def)
next
  case (step y z)
  from step.hyps(2) step.prems have yz: "before order y z"
    using inv_before [OF inv] by (simp add: dependency_graph_def)
  then have "y \<in> set order" by (simp add: before_in_set)
  from step.IH [OF this] yz show ?case
    by (rule before_trans [OF inv_distinct [OF inv]])
qed

lemma inv_cycle_not_ordered:
  assumes "kahn_inv services [] order f" and "(n, n) \<in> (dependency_graph services)\<^sup>+"
  shows "n \<notin> set order"
  using inv_graph_before [OF assms(1) assms(2)] before_irrefl [OF inv_distinct [OF assms(1)]]
  by blast

lemma inv_length:
  assumes inv: "kahn_inv services [] order f" and dk: "distinct (map fst services)"
  shows "length order = length services \<longleftrightarrow> set order = fst ` set services"
proof -
  have sub: "set order \<subseteq> fst ` set services" using inv_set [OF inv] by blast
  have lo: "length order = card (set order)"
    using inv_distinct [OF inv] by (simp add: distinct_card)
  have ls: "length services = card (fst ` set services)"
    using dk distinct_card [of "map fst services"] by simp
  show ?thesis
  proof
    assume "length order = length services"
    then have "card (set order) = card (fst ` set services)" using lo ls by simp
    with sub show "set order = fst ` set services"
      by (simp add: card_subset_eq)
  next
    assume "set order = fst ` set services"
    then show "length order = length services" using lo ls by simp
  qed
qed

lemma inv_acyclic_complete:
  assumes inv: "kahn_inv services [] order f" and defined: "references_defined services"
    and acyclic: "acyclic (dependency_graph services)"
  shows "set order = fst ` set services"
proof (rule ccontr)
  let ?K = "fst ` set services"
  let ?R = "?K - set order"
  assume "set order \<noteq> ?K"
  with inv_set [OF inv] have ne: "?R \<noteq> {}" by blast
  have "dependency_graph services \<subseteq> ?K \<times> ?K"
  proof
    fix p assume "p \<in> dependency_graph services"
    then obtain d s where p: "p = (d, s)" and d: "d \<in> depends services s"
      by (auto simp: dependency_graph_def)
    from d have "map_of services s \<noteq> None" by (auto simp: depends_def split: option.splits)
    then have "s \<in> ?K" by (simp add: map_of_None_iff_key)
    moreover have "d \<in> ?K" using d defined by (auto simp: references_defined_def)
    ultimately show "p \<in> ?K \<times> ?K" by (simp add: p)
  qed
  then have "finite (dependency_graph services)"
    by (rule finite_subset) simp
  then have "wf (dependency_graph services)"
    using acyclic by (rule finite_acyclic_wf)
  from wfE_min [OF this, of _ ?R] ne obtain z where
    z: "z \<in> ?R" and min: "\<And>y. (y, z) \<in> dependency_graph services \<Longrightarrow> y \<notin> ?R"
    by (metis all_not_in_conv)
  have "depends services z \<subseteq> set order"
  proof
    fix d assume d: "d \<in> depends services z"
    then have "d \<notin> ?R" using min by (simp add: dependency_graph_def)
    moreover have "d \<in> ?K" using d defined by (auto simp: references_defined_def)
    ultimately show "d \<in> set order" by blast
  qed
  with z inv_set [OF inv] show False by blast
qed

lemma initial_queue_holds:
  assumes it: "go_iteration it" and h: "holds inDegree K g"
  shows "sorted (initial_queue it inDegree)" and "distinct (initial_queue it inDegree)"
    and "set (initial_queue it inDegree) = {n \<in> K. g n = 0}"
proof -
  show "sorted (initial_queue it inDegree)" by (simp add: initial_queue_def)
  show "distinct (initial_queue it inDegree)"
    using range_keys_holds(2) [OF it h] by (simp add: initial_queue_def)
  show "set (initial_queue it inDegree) = {n \<in> K. g n = 0}"
    using range_keys_holds(1) [OF it h] holds_index [OF h]
    by (auto simp: initial_queue_def)
qed

lemma kahn_final:
  assumes it: "go_iteration it" and wf: "wf_services services"
    and deps: "holds deps (fst ` set services) (dep_list services)"
  shows "\<exists>f. kahn_inv services [] (fst (kahn it services deps)) f
            \<and> holds (snd (kahn it services deps)) (fst ` set services) f"
proof -
  let ?K = "fst ` set services"
  let ?g = "\<lambda>n. int (length (dep_list services n))"
  let ?ind = "fst (build_degrees it services deps)"
  let ?dpt = "snd (build_degrees it services deps)"
  have dk: "distinct (map fst services)" using wf by (simp add: wf_services_def)
  have dist: "\<And>n. distinct (dep_list services n)" by (rule distinct_dep_list [OF wf])
  have hind: "holds ?ind ?K ?g"
    by (rule build_degrees_holds(1) [OF it dk deps dist])
  have dpt: "\<forall>c. distinct (index ?dpt [] c)
      \<and> set (index ?dpt [] c) = {n \<in> ?K. c \<in> depends services n}"
    using build_degrees_holds(2,3) [OF it dk deps dist] by (simp add: set_dep_list)
  have card: "\<And>n. ?g n = int (card (depends services n))"
    using dist by (simp add: distinct_card set_dep_list [symmetric])
  have zero: "\<And>n. ?g n = 0 \<longleftrightarrow> depends services n = {}"
    by (simp add: set_dep_list [symmetric])
  have init: "kahn_inv services (initial_queue it ?ind) [] ?g"
    unfolding kahn_inv_def
    using initial_queue_holds(2,3) [OF it hind] card zero by auto
  from kahn_loop_inv [OF dk dpt init hind]
  show ?thesis by (simp add: kahn_def split_def)
qed

lemma cycled_holds:
  assumes it: "go_iteration it" and h: "holds inDegree K f"
  shows "sorted (cycled it inDegree)" and "distinct (cycled it inDegree)"
    and "set (cycled it inDegree) = {n \<in> K. 0 < f n}"
proof -
  show "sorted (cycled it inDegree)" by (simp add: cycled_def)
  show "distinct (cycled it inDegree)"
    using range_keys_holds(2) [OF it h] by (simp add: cycled_def)
  show "set (cycled it inDegree) = {n \<in> K. 0 < f n}"
    using range_keys_holds(1) [OF it h] holds_index [OF h]
    by (auto simp: cycled_def)
qed

lemma depends_key: "d \<in> depends services s \<Longrightarrow> s \<in> fst ` set services"
proof -
  assume "d \<in> depends services s"
  then have "map_of services s \<noteq> None" by (auto simp: depends_def split: option.splits)
  then show ?thesis by (simp add: map_of_None_iff_key)
qed

lemma inv_positive:
  assumes inv: "kahn_inv services [] order f" and n: "n \<in> fst ` set services"
  shows "0 < f n \<longleftrightarrow> n \<notin> set order" and "0 \<le> f n"
proof -
  have f: "f n = int (card (depends services n - set order))"
    using inv n unfolding kahn_inv_def by blast
  then show "0 \<le> f n" by simp
  have "0 < f n \<longleftrightarrow> depends services n - set order \<noteq> {}"
    using f finite_depends [of services n] by (simp add: card_gt_0_iff)
  also have "\<dots> \<longleftrightarrow> \<not> depends services n \<subseteq> set order" by blast
  also have "\<dots> \<longleftrightarrow> n \<notin> set order" using inv_set [OF inv] n by blast
  finally show "0 < f n \<longleftrightarrow> n \<notin> set order" .
qed

text \<open>
  Claim C1. When the references are all declared and the dependency graph has no cycle,
  \<open>ResolveOrder\<close> returns an order that has every service name exactly once and every
  dependency strictly before its dependent, whatever the iteration order of the maps.
\<close>

theorem resolve_order_acyclic:
  assumes it: "go_iteration it" and wf: "wf_services services"
    and defined: "references_defined services"
    and acyclic: "acyclic (dependency_graph services)"
  shows "\<exists>order. ResolveOrder it services = Inr order
           \<and> distinct order \<and> set order = fst ` set services
           \<and> (\<forall>s d. d \<in> depends services s \<longrightarrow> before order d s)"
proof -
  from build_deps_defined [OF it wf defined] obtain deps where
    deps: "build_deps it services = Inr deps" and h: "holds deps (fst ` set services) (dep_list services)"
    by blast
  from kahn_final [OF it wf h] obtain f where
    inv: "kahn_inv services [] (fst (kahn it services deps)) f" by blast
  let ?order = "fst (kahn it services deps)"
  have dk: "distinct (map fst services)" using wf by (simp add: wf_services_def)
  have all: "set ?order = fst ` set services"
    by (rule inv_acyclic_complete [OF inv defined acyclic])
  then have "length ?order = length services"
    using inv_length [OF inv dk] by simp
  then have r: "ResolveOrder it services = Inr ?order"
    by (simp add: ResolveOrder_def deps split_def)
  have "\<forall>s d. d \<in> depends services s \<longrightarrow> before ?order d s"
    using inv_before [OF inv] depends_key all by blast
  with r all inv_distinct [OF inv] show ?thesis by blast
qed

definition chain_services :: "Service gomap" where
  "chain_services = [(''a'', depends_on [''b'']), (''b'', depends_on [])]"

lemma depends_chain:
  "depends chain_services s = (if s = ''a'' then {''b''} else {})"
  by (simp add: depends_def chain_services_def dependencies_def depends_on_def)

lemma wf_chain: "wf_services chain_services"
  by (simp add: wf_services_def chain_services_def dependencies_def depends_on_def)

lemma defined_chain: "references_defined chain_services"
  unfolding references_defined_def depends_chain by (simp add: chain_services_def)

lemma acyclic_chain: "acyclic (dependency_graph chain_services)"
proof -
  have "dependency_graph chain_services = {(''b'', ''a'')}"
    by (auto simp: dependency_graph_def depends_chain split: if_splits)
  moreover have "acyclic ({} :: (string \<times> string) set)"
    by (rule wf_acyclic) simp
  ultimately show ?thesis by (simp add: acyclic_insert)
qed

lemma go_iteration_id: "go_iteration (\<lambda>s ks. ks)"
  by (simp add: go_iteration_def)

lemma go_iteration_rev: "go_iteration (\<lambda>s ks. rev ks)"
  by (simp add: go_iteration_def)

theorem resolve_order_acyclic_witness:
  "go_iteration (\<lambda>s ks. rev ks)
   \<and> acyclic (dependency_graph chain_services)
   \<and> (\<exists>order. ResolveOrder (\<lambda>s ks. rev ks) chain_services = Inr order
         \<and> distinct order \<and> set order = {''a'', ''b''} \<and> before order ''b'' ''a'')"
proof -
  have "''b'' \<in> depends chain_services ''a''" by (simp add: depends_chain)
  moreover have "fst ` set chain_services = {''a'', ''b''}" by (simp add: chain_services_def)
  moreover from resolve_order_acyclic [OF go_iteration_rev wf_chain defined_chain acyclic_chain]
  obtain order where "ResolveOrder (\<lambda>s ks. rev ks) chain_services = Inr order"
    "distinct order" "set order = fst ` set chain_services"
    "\<forall>s d. d \<in> depends chain_services s \<longrightarrow> before order d s"
    by blast
  ultimately have "\<exists>order. ResolveOrder (\<lambda>s ks. rev ks) chain_services = Inr order
         \<and> distinct order \<and> set order = {''a'', ''b''} \<and> before order ''b'' ''a''"
    by metis
  with go_iteration_rev acyclic_chain show ?thesis by (intro conjI)
qed

text \<open>
  Claim C4, amended. When the references are all declared and no order has every
  dependency before its dependent, \<open>ResolveOrder\<close> fails with a \<open>CycleError\<close>. Its list is
  sorted, without repetition, and holds exactly the services whose in-degree is not zero
  when the queue is empty; these are the services missing from the order, and every
  service on a cycle is among them (so both services of a mutual dependency, and a
  service that depends on itself).
\<close>

theorem resolve_order_cycle:
  assumes it: "go_iteration it" and wf: "wf_services services"
    and defined: "references_defined services"
    and none: "\<not> has_topological_order services"
  shows "\<exists>deps order inDegree cycle.
           build_deps it services = Inr deps
           \<and> kahn it services deps = (order, inDegree)
           \<and> ResolveOrder it services = Inl (CycleError cycle)
           \<and> sorted cycle \<and> distinct cycle
           \<and> set cycle = {n. index inDegree 0 n \<noteq> 0}
           \<and> set cycle = fst ` set services - set order
           \<and> {n. (n, n) \<in> (dependency_graph services)\<^sup>+} \<subseteq> set cycle"
proof -
  let ?K = "fst ` set services"
  from build_deps_defined [OF it wf defined] obtain deps where
    deps: "build_deps it services = Inr deps" and h: "holds deps ?K (dep_list services)"
    by blast
  from kahn_final [OF it wf h] obtain f where
    inv: "kahn_inv services [] (fst (kahn it services deps)) f"
    and hf: "holds (snd (kahn it services deps)) ?K f" by blast
  let ?order = "fst (kahn it services deps)"
  let ?ind = "snd (kahn it services deps)"
  let ?cycle = "cycled it ?ind"
  have dk: "distinct (map fst services)" using wf by (simp add: wf_services_def)
  have "set ?order \<noteq> ?K"
  proof
    assume all: "set ?order = ?K"
    have "\<forall>s d. d \<in> depends services s \<longrightarrow> before ?order d s"
      using inv_before [OF inv] depends_key all by blast
    then have "topological services ?order"
      using all inv_distinct [OF inv] by (simp add: topological_def)
    with none show False by (auto simp: has_topological_order_def)
  qed
  then have "length ?order \<noteq> length services"
    using inv_length [OF inv dk] by simp
  then have r: "ResolveOrder it services = Inl (CycleError ?cycle)"
    by (simp add: ResolveOrder_def deps split_def)
  have sub: "set ?order \<subseteq> ?K" using inv_set [OF inv] by blast
  have c1: "set ?cycle = {n \<in> ?K. 0 < f n}" by (rule cycled_holds(3) [OF it hf])
  have c2: "set ?cycle = {n. index ?ind 0 n \<noteq> 0}"
  proof -
    have "\<And>n. index ?ind 0 n \<noteq> 0 \<longleftrightarrow> n \<in> ?K \<and> 0 < f n"
      using holds_index [OF hf, of 0] inv_positive(2) [OF inv] by (simp add: less_le)
    then show ?thesis using c1 by auto
  qed
  have c3: "set ?cycle = ?K - set ?order"
    using c1 inv_positive(1) [OF inv] by auto
  have c4: "{n. (n, n) \<in> (dependency_graph services)\<^sup>+} \<subseteq> set ?cycle"
  proof
    fix n assume "n \<in> {n. (n, n) \<in> (dependency_graph services)\<^sup>+}"
    then have loop: "(n, n) \<in> (dependency_graph services)\<^sup>+" by simp
    then obtain d where "(d, n) \<in> dependency_graph services" by (meson tranclD2)
    then have "n \<in> ?K" using depends_key by (simp add: dependency_graph_def)
    moreover have "n \<notin> set ?order" by (rule inv_cycle_not_ordered [OF inv loop])
    ultimately show "n \<in> set ?cycle" using c3 by simp
  qed
  have k: "kahn it services deps = (?order, ?ind)" by simp
  show ?thesis
    by (intro exI conjI) (rule deps k r cycled_holds(1,2) [OF it hf] c2 c3 c4)+
qed

definition mutual_services :: "Service gomap" where
  "mutual_services = [(''a'', depends_on [''b'']), (''b'', depends_on [''a''])]"

definition self_services :: "Service gomap" where
  "self_services = [(''a'', depends_on [''a''])]"

definition dangling_cycle_services :: "Service gomap" where
  "dangling_cycle_services = [(''a'', depends_on [''b'']), (''b'', depends_on [''a'', ''x''])]"

lemma depends_mutual:
  "depends mutual_services s = (if s = ''a'' then {''b''} else if s = ''b'' then {''a''} else {})"
  by (simp add: depends_def mutual_services_def dependencies_def depends_on_def)

lemma depends_self: "depends self_services s = (if s = ''a'' then {''a''} else {})"
  by (simp add: depends_def self_services_def dependencies_def depends_on_def)

lemma depends_dangling:
  "depends dangling_cycle_services s
     = (if s = ''a'' then {''b''} else if s = ''b'' then {''a'', ''x''} else {})"
  by (auto simp: depends_def dangling_cycle_services_def dependencies_def depends_on_def)

lemma wf_mutual: "wf_services mutual_services"
  by (simp add: wf_services_def mutual_services_def dependencies_def depends_on_def)

lemma wf_self: "wf_services self_services"
  by (simp add: wf_services_def self_services_def dependencies_def depends_on_def)

lemma defined_mutual: "references_defined mutual_services"
  unfolding references_defined_def depends_mutual by (simp add: mutual_services_def)

lemma defined_self: "references_defined self_services"
  unfolding references_defined_def depends_self by (simp add: self_services_def)

lemma cycle_not_topological:
  assumes "(n, n) \<in> (dependency_graph services)\<^sup>+"
  shows "\<not> topological services order"
proof
  assume t: "topological services order"
  have "(d, s) \<in> (dependency_graph services)\<^sup>+ \<Longrightarrow> before order d s" for d s
  proof (induction rule: trancl_induct)
    case (base y)
    then show ?case using t by (simp add: topological_def dependency_graph_def)
  next
    case (step y z)
    then have "before order y z" using t by (simp add: topological_def dependency_graph_def)
    moreover have "distinct order" using t by (simp add: topological_def)
    ultimately show ?case using step.IH before_trans by blast
  qed
  from this [OF assms] have "before order n n" .
  moreover have "distinct order" using t by (simp add: topological_def)
  ultimately show False using before_irrefl by blast
qed

lemma cycle_mutual:
  "(''a'', ''a'') \<in> (dependency_graph mutual_services)\<^sup>+"
  "(''b'', ''b'') \<in> (dependency_graph mutual_services)\<^sup>+"
proof -
  have ab: "(''a'', ''b'') \<in> dependency_graph mutual_services"
    and ba: "(''b'', ''a'') \<in> dependency_graph mutual_services"
    by (simp_all add: dependency_graph_def depends_mutual)
  show "(''a'', ''a'') \<in> (dependency_graph mutual_services)\<^sup>+"
    by (rule trancl_into_trancl [OF r_into_trancl [OF ab] ba])
  show "(''b'', ''b'') \<in> (dependency_graph mutual_services)\<^sup>+"
    by (rule trancl_into_trancl [OF r_into_trancl [OF ba] ab])
qed

lemma cycle_self: "(''a'', ''a'') \<in> (dependency_graph self_services)\<^sup>+"
  by (rule r_into_trancl) (simp add: dependency_graph_def depends_self)

lemma cycle_dangling: "(''a'', ''a'') \<in> (dependency_graph dangling_cycle_services)\<^sup>+"
proof -
  have ab: "(''a'', ''b'') \<in> dependency_graph dangling_cycle_services"
    and ba: "(''b'', ''a'') \<in> dependency_graph dangling_cycle_services"
    by (simp_all add: dependency_graph_def depends_dangling)
  show ?thesis by (rule trancl_into_trancl [OF r_into_trancl [OF ab] ba])
qed

lemma sorted_distinct_list:
  assumes "sorted xs" and "distinct xs" and "set xs = set ys" and "sorted ys" and "distinct ys"
  shows "xs = ys"
  using assms(1,2,4,5,3) by (rule sorted_distinct_set_unique)

theorem resolve_order_cycle_witness:
  "go_iteration (\<lambda>s ks. rev ks)
   \<and> ResolveOrder (\<lambda>s ks. rev ks) mutual_services = Inl (CycleError [''a'', ''b''])
   \<and> ResolveOrder (\<lambda>s ks. rev ks) self_services = Inl (CycleError [''a''])"
proof -
  have n1: "\<not> has_topological_order mutual_services"
    using cycle_not_topological [OF cycle_mutual(1)] by (simp add: has_topological_order_def)
  from resolve_order_cycle [OF go_iteration_rev wf_mutual defined_mutual n1]
  obtain order cycle where r: "ResolveOrder (\<lambda>s ks. rev ks) mutual_services = Inl (CycleError cycle)"
    and c: "sorted cycle" "distinct cycle" "set cycle = fst ` set mutual_services - set order"
      "{n. (n, n) \<in> (dependency_graph mutual_services)\<^sup>+} \<subseteq> set cycle"
    by blast
  have "set cycle = {''a'', ''b''}"
    using c(3,4) cycle_mutual by (auto simp: mutual_services_def)
  with c(1,2) have "cycle = [''a'', ''b'']" by (intro sorted_distinct_list) simp_all
  with r have m: "ResolveOrder (\<lambda>s ks. rev ks) mutual_services = Inl (CycleError [''a'', ''b''])"
    by simp
  have n2: "\<not> has_topological_order self_services"
    using cycle_not_topological [OF cycle_self] by (simp add: has_topological_order_def)
  from resolve_order_cycle [OF go_iteration_rev wf_self defined_self n2]
  obtain order' cycle' where r': "ResolveOrder (\<lambda>s ks. rev ks) self_services = Inl (CycleError cycle')"
    and c': "sorted cycle'" "distinct cycle'" "set cycle' = fst ` set self_services - set order'"
      "{n. (n, n) \<in> (dependency_graph self_services)\<^sup>+} \<subseteq> set cycle'"
    by blast
  have "set cycle' = {''a''}"
    using c'(3,4) cycle_self by (auto simp: self_services_def)
  with c'(1,2) have "cycle' = [''a'']" by (intro sorted_distinct_list) simp_all
  with r' have s: "ResolveOrder (\<lambda>s ks. rev ks) self_services = Inl (CycleError [''a''])"
    by simp
  from go_iteration_rev m s show ?thesis by (intro conjI)
qed

text \<open>
  The claim C4 as stated fails where a service on a cycle also names a service that is
  not declared: the error is the undefined dependency, not the cycle.
\<close>

theorem resolve_order_cycle_counterexample:
  "\<not> has_topological_order dangling_cycle_services
   \<and> ResolveOrder (\<lambda>s ks. ks) dangling_cycle_services = Inl (UndefinedDependency ''b'' ''x'')"
proof
  show "\<not> has_topological_order dangling_cycle_services"
    using cycle_not_topological [OF cycle_dangling] by (simp add: has_topological_order_def)
  show "ResolveOrder (\<lambda>s ks. ks) dangling_cycle_services = Inl (UndefinedDependency ''b'' ''x'')"
    by (simp add: ResolveOrder_def build_deps_def range_keys_def dangling_cycle_services_def
        depends_on_def empty_service_def index_def service_started_def)
qed

section \<open>Dependency graph: independence of the iteration order\<close>

lemma kahn_loop_cong:
  assumes dk: "distinct (map fst services)"
    and dpt2: "\<And>c. distinct (index dependents2 [] c)
                \<and> set (index dependents2 [] c) = {n \<in> fst ` set services. c \<in> depends services n}"
  shows "(\<forall>c. distinct (index dependents [] c)
                \<and> set (index dependents [] c) = {n \<in> fst ` set services. c \<in> depends services n}) \<Longrightarrow>
    holds inDegree (fst ` set services) f \<Longrightarrow> holds inDegree2 (fst ` set services) f \<Longrightarrow>
    fst (kahn_loop dependents queue order inDegree) = fst (kahn_loop dependents2 queue order inDegree2)
    \<and> (\<exists>f'. holds (snd (kahn_loop dependents queue order inDegree)) (fst ` set services) f'
            \<and> holds (snd (kahn_loop dependents2 queue order inDegree2)) (fst ` set services) f')"
proof (induction dependents queue order inDegree arbitrary: f inDegree2 rule: kahn_loop.induct)
  case (1 dependents order inDegree)
  then show ?case by auto
next
  case (2 dependents current queue order inDegree)
  let ?K = "fst ` set services"
  let ?cs = "children services current"
  have cs: "sort (index dependents [] current) = ?cs"
    using "2.prems"(1) by (intro sort_children [OF dk]) simp_all
  have cs2: "sort (index dependents2 [] current) = ?cs"
    by (intro sort_children [OF dk]) (simp_all add: dpt2)
  have sub: "set ?cs \<subseteq> ?K" by (auto simp: set_children)
  let ?f = "\<lambda>n. if n \<in> set ?cs then f n - 1 else f n"
  from children_loop_holds [where q = queue and cs = ?cs,
      OF distinct_children [OF dk] "2.prems"(2) sub]
  have h: "holds (fst (children_loop ?cs (inDegree, queue))) ?K ?f"
    and q: "snd (children_loop ?cs (inDegree, queue)) = queue @ filter (\<lambda>n. f n = 1) ?cs"
    by simp_all
  from children_loop_holds [where q = queue and cs = ?cs,
      OF distinct_children [OF dk] "2.prems"(3) sub]
  have h2: "holds (fst (children_loop ?cs (inDegree2, queue))) ?K ?f"
    and q2: "snd (children_loop ?cs (inDegree2, queue)) = queue @ filter (\<lambda>n. f n = 1) ?cs"
    by simp_all
  have IH: "fst (kahn_loop dependents (snd (children_loop ?cs (inDegree, queue))) (order @ [current])
                  (fst (children_loop ?cs (inDegree, queue))))
          = fst (kahn_loop dependents2 (snd (children_loop ?cs (inDegree, queue))) (order @ [current])
                  (fst (children_loop ?cs (inDegree2, queue))))
      \<and> (\<exists>f'. holds (snd (kahn_loop dependents (snd (children_loop ?cs (inDegree, queue)))
                          (order @ [current]) (fst (children_loop ?cs (inDegree, queue))))) ?K f'
             \<and> holds (snd (kahn_loop dependents2 (snd (children_loop ?cs (inDegree, queue)))
                          (order @ [current]) (fst (children_loop ?cs (inDegree2, queue))))) ?K f')"
    using "2.IH" [OF "2.prems"(1), of ?f "fst (children_loop ?cs (inDegree2, queue))"] h h2
    by (simp only: cs)
  have q12: "snd (children_loop ?cs (inDegree2, queue)) = snd (children_loop ?cs (inDegree, queue))"
    by (simp only: q q2)
  show ?case
    unfolding kahn_loop.simps cs cs2 q12 by (rule IH)
qed

lemma initial_queue_unique:
  assumes "go_iteration it1" and "go_iteration it2"
    and "holds inDegree1 K g" and "holds inDegree2 K g"
  shows "initial_queue it1 inDegree1 = initial_queue it2 inDegree2"
  using initial_queue_holds [OF assms(1,3)] initial_queue_holds [OF assms(2,4)]
  by (intro sorted_distinct_list) simp_all

lemma cycled_unique:
  assumes "go_iteration it1" and "go_iteration it2"
    and "holds inDegree1 K g" and "holds inDegree2 K g"
  shows "cycled it1 inDegree1 = cycled it2 inDegree2"
  using cycled_holds [OF assms(1,3)] cycled_holds [OF assms(2,4)]
  by (intro sorted_distinct_list) simp_all

lemma kahn_unique:
  assumes it1: "go_iteration it1" and it2: "go_iteration it2" and wf: "wf_services services"
    and deps1: "holds deps1 (fst ` set services) (dep_list services)"
    and deps2: "holds deps2 (fst ` set services) (dep_list services)"
  shows "fst (kahn it1 services deps1) = fst (kahn it2 services deps2)
       \<and> cycled it1 (snd (kahn it1 services deps1)) = cycled it2 (snd (kahn it2 services deps2))"
proof -
  let ?K = "fst ` set services"
  let ?g = "\<lambda>n. int (length (dep_list services n))"
  have dk: "distinct (map fst services)" using wf by (simp add: wf_services_def)
  have dist: "\<And>n. distinct (dep_list services n)" by (rule distinct_dep_list [OF wf])
  let ?ind1 = "fst (build_degrees it1 services deps1)"
  let ?dpt1 = "snd (build_degrees it1 services deps1)"
  let ?ind2 = "fst (build_degrees it2 services deps2)"
  let ?dpt2 = "snd (build_degrees it2 services deps2)"
  have h1: "holds ?ind1 ?K ?g" by (rule build_degrees_holds(1) [OF it1 dk deps1 dist])
  have h2: "holds ?ind2 ?K ?g" by (rule build_degrees_holds(1) [OF it2 dk deps2 dist])
  have d1: "\<forall>c. distinct (index ?dpt1 [] c)
      \<and> set (index ?dpt1 [] c) = {n \<in> ?K. c \<in> depends services n}"
    using build_degrees_holds(2,3) [OF it1 dk deps1 dist] by (simp add: set_dep_list)
  have d2: "\<And>c. distinct (index ?dpt2 [] c)
      \<and> set (index ?dpt2 [] c) = {n \<in> ?K. c \<in> depends services n}"
    using build_degrees_holds(2,3) [OF it2 dk deps2 dist] by (simp add: set_dep_list)
  have q: "initial_queue it2 ?ind2 = initial_queue it1 ?ind1"
    by (rule initial_queue_unique [OF it2 it1 h2 h1])
  from kahn_loop_cong [OF dk d2 d1 h1 h2, of "initial_queue it1 ?ind1" "[]"]
  obtain f' where
    o: "fst (kahn_loop ?dpt1 (initial_queue it1 ?ind1) [] ?ind1)
          = fst (kahn_loop ?dpt2 (initial_queue it1 ?ind1) [] ?ind2)"
    and f1: "holds (snd (kahn_loop ?dpt1 (initial_queue it1 ?ind1) [] ?ind1)) ?K f'"
    and f2: "holds (snd (kahn_loop ?dpt2 (initial_queue it1 ?ind1) [] ?ind2)) ?K f'"
    by blast
  have k1: "kahn it1 services deps1 = kahn_loop ?dpt1 (initial_queue it1 ?ind1) [] ?ind1"
    by (simp add: kahn_def split_def)
  have k2: "kahn it2 services deps2 = kahn_loop ?dpt2 (initial_queue it1 ?ind1) [] ?ind2"
    by (simp add: kahn_def split_def q)
  show ?thesis
    unfolding k1 k2 using o cycled_unique [OF it1 it2 f1 f2] by (intro conjI)
qed

text \<open>
  Claim C2, amended. With all references declared, two invocations return the same
  order, or the same \<open>CycleError\<close>, whatever the iteration orders of the input map and of
  the internal maps. With an undeclared reference every invocation fails with an
  \<open>UndefinedDependency\<close> error that names a service and an undeclared reference of it.
\<close>

theorem resolve_order_deterministic:
  assumes it1: "go_iteration it1" and it2: "go_iteration it2" and wf: "wf_services services"
  shows "(references_defined services \<longrightarrow> ResolveOrder it1 services = ResolveOrder it2 services)
       \<and> (\<not> references_defined services \<longrightarrow>
            (\<exists>name dep. ResolveOrder it1 services = Inl (UndefinedDependency name dep)
                \<and> dep \<in> depends services name \<and> dep \<notin> fst ` set services)
          \<and> (\<exists>name dep. ResolveOrder it2 services = Inl (UndefinedDependency name dep)
                \<and> dep \<in> depends services name \<and> dep \<notin> fst ` set services))"
proof (intro conjI impI)
  assume defined: "references_defined services"
  from build_deps_defined [OF it1 wf defined] obtain deps1 where
    b1: "build_deps it1 services = Inr deps1" and h1: "holds deps1 (fst ` set services) (dep_list services)"
    by blast
  from build_deps_defined [OF it2 wf defined] obtain deps2 where
    b2: "build_deps it2 services = Inr deps2" and h2: "holds deps2 (fst ` set services) (dep_list services)"
    by blast
  from kahn_unique [OF it1 it2 wf h1 h2]
  show "ResolveOrder it1 services = ResolveOrder it2 services"
    by (simp add: ResolveOrder_def b1 b2 split_def)
next
  assume undefined: "\<not> references_defined services"
  from build_deps_undefined [OF it1 undefined]
  show "\<exists>name dep. ResolveOrder it1 services = Inl (UndefinedDependency name dep)
          \<and> dep \<in> depends services name \<and> dep \<notin> fst ` set services"
    by (auto simp: ResolveOrder_def)
next
  assume undefined: "\<not> references_defined services"
  from build_deps_undefined [OF it2 undefined]
  show "\<exists>name dep. ResolveOrder it2 services = Inl (UndefinedDependency name dep)
          \<and> dep \<in> depends services name \<and> dep \<notin> fst ` set services"
    by (auto simp: ResolveOrder_def)
qed

definition two_undefined_services :: "Service gomap" where
  "two_undefined_services = [(''a'', depends_on [''x'']), (''b'', depends_on [''y''])]"

text \<open>
  The claim C2 as stated fails for the errors: with two undeclared references, the one
  that is reported depends on the order in which the services are visited.
\<close>

theorem resolve_order_deterministic_counterexample:
  "go_iteration (\<lambda>s ks. ks) \<and> go_iteration (\<lambda>s ks. rev ks)
   \<and> ResolveOrder (\<lambda>s ks. ks) two_undefined_services = Inl (UndefinedDependency ''a'' ''x'')
   \<and> ResolveOrder (\<lambda>s ks. rev ks) two_undefined_services = Inl (UndefinedDependency ''b'' ''y'')"
  by (simp add: go_iteration_def ResolveOrder_def build_deps_def range_keys_def
      two_undefined_services_def depends_on_def empty_service_def index_def service_started_def)

lemma wf_two_undefined: "wf_services two_undefined_services"
  by (simp add: wf_services_def two_undefined_services_def dependencies_def depends_on_def)

lemma undefined_two_undefined: "\<not> references_defined two_undefined_services"
proof
  assume "references_defined two_undefined_services"
  then have "depends two_undefined_services ''a'' \<subseteq> fst ` set two_undefined_services"
    by (simp add: references_defined_def)
  then show False
    by (simp add: depends_def two_undefined_services_def dependencies_def depends_on_def)
qed

theorem resolve_order_deterministic_witness:
  "go_iteration (\<lambda>s ks. ks) \<and> go_iteration (\<lambda>s ks. rev ks)
   \<and> ResolveOrder (\<lambda>s ks. ks) mutual_services = ResolveOrder (\<lambda>s ks. rev ks) mutual_services
   \<and> ResolveOrder (\<lambda>s ks. ks) chain_services = ResolveOrder (\<lambda>s ks. rev ks) chain_services
   \<and> (\<exists>name dep. ResolveOrder (\<lambda>s ks. rev ks) two_undefined_services
                     = Inl (UndefinedDependency name dep))"
proof -
  have "\<exists>name dep. ResolveOrder (\<lambda>s ks. rev ks) two_undefined_services
                     = Inl (UndefinedDependency name dep)"
    using resolve_order_deterministic [OF go_iteration_id go_iteration_rev wf_two_undefined]
      undefined_two_undefined by blast
  then show ?thesis
    using resolve_order_deterministic [OF go_iteration_id go_iteration_rev wf_mutual]
      resolve_order_deterministic [OF go_iteration_id go_iteration_rev wf_chain]
      defined_mutual defined_chain go_iteration_id go_iteration_rev
    by simp
qed

section \<open>Dependency graph: the queue\<close>

lemma children_loop_queue:
  "distinct cs \<Longrightarrow>
   snd (children_loop cs (inDegree, queue))
     = queue @ filter (\<lambda>n. index inDegree 0 n = 1) cs"
proof (induction cs arbitrary: inDegree queue)
  case Nil
  show ?case by simp
next
  case (Cons c cs)
  then have d: "distinct cs" and nc: "c \<notin> set cs" by simp_all
  have fl: "filter (\<lambda>n. index (AList.update c (index inDegree 0 c - 1) inDegree) 0 n = 1) cs
      = filter (\<lambda>n. index inDegree 0 n = 1) cs"
    using nc by (auto simp: index_update intro: filter_cong)
  show ?case
    unfolding children_loop_Cons Cons.IH [OF d] fl by simp
qed

text \<open>
  Claim C3, amended. The queue is sorted when the loop starts. When a service is popped
  from the front, those of its dependents whose in-degree drops from one to zero are
  appended behind the names already queued, sorted among themselves; the queue is not
  sorted again, and the loop goes on with its front.
\<close>

theorem queue_first_in_first_out:
  "sorted (initial_queue it inDegree0)
   \<and> (distinct (index dependents [] current) \<longrightarrow>
        sorted (filter (\<lambda>n. index inDegree 0 n = 1) (sort (index dependents [] current)))
        \<and> kahn_loop dependents (current # queue) order inDegree
            = kahn_loop dependents
                (queue @ filter (\<lambda>n. index inDegree 0 n = 1) (sort (index dependents [] current)))
                (order @ [current])
                (fst (children_loop (sort (index dependents [] current)) (inDegree, queue))))"
proof (intro conjI impI)
  show "sorted (initial_queue it inDegree0)" by (simp add: initial_queue_def)
next
  show "sorted (filter (\<lambda>n. index inDegree 0 n = 1) (sort (index dependents [] current)))"
    by (rule sorted_wrt_filter) simp
next
  assume "distinct (index dependents [] current)"
  then have "distinct (sort (index dependents [] current))" by simp
  from children_loop_queue [OF this, of inDegree queue]
  show "kahn_loop dependents (current # queue) order inDegree
            = kahn_loop dependents
                (queue @ filter (\<lambda>n. index inDegree 0 n = 1) (sort (index dependents [] current)))
                (order @ [current])
                (fst (children_loop (sort (index dependents [] current)) (inDegree, queue)))"
    by (simp only: kahn_loop.simps)
qed

definition late_services :: "Service gomap" where
  "late_services = [(''a'', depends_on []), (''z'', depends_on []), (''m'', depends_on [''a''])]"

theorem queue_first_in_first_out_witness:
  "sorted (initial_queue (\<lambda>s ks. ks) [(''a'', 0), (''z'', 0), (''m'', 1)])
   \<and> distinct (index [(''a'', [''m''])] [] ''a'')
   \<and> kahn_loop [(''a'', [''m''])] [''a'', ''z''] [] [(''a'', 0), (''z'', 0), (''m'', 1)]
        = kahn_loop [(''a'', [''m''])] [''z'', ''m''] [''a''] [(''a'', 0), (''z'', 0), (''m'', 0)]"
  using queue_first_in_first_out [of "\<lambda>s ks. ks" "[(''a'', 0), (''z'', 0), (''m'', 1)]"
      "[(''a'', [''m''])]" "''a''" "[(''a'', 0), (''z'', 0), (''m'', 1)]" "[''z'']" "[]"]
  by (simp add: index_def)

text \<open>
  The claim C3 as stated fails: after \<open>a\<close> is popped, \<open>m\<close> becomes ready and is queued
  behind \<open>z\<close>; the queue \<open>[z, m]\<close> is not sorted, and \<open>z\<close> is removed next although
  \<open>m\<close> is the smaller name.
\<close>

theorem queue_sorted_counterexample:
  "build_deps (\<lambda>s ks. ks) late_services = Inr [(''a'', []), (''z'', []), (''m'', [''a''])]
   \<and> build_degrees (\<lambda>s ks. ks) late_services [(''a'', []), (''z'', []), (''m'', [''a''])]
       = ([(''a'', 0), (''z'', 0), (''m'', 1)], [(''a'', [''m''])])
   \<and> initial_queue (\<lambda>s ks. ks) [(''a'', 0), (''z'', 0), (''m'', 1)] = [''a'', ''z'']
   \<and> snd (children_loop (sort (index [(''a'', [''m''])] [] ''a''))
             ([(''a'', 0), (''z'', 0), (''m'', 1)], [''z''])) = [''z'', ''m'']
   \<and> \<not> sorted [''z'', ''m'']
   \<and> ResolveOrder (\<lambda>s ks. ks) late_services = Inr [''a'', ''z'', ''m'']"
  by (simp add: ResolveOrder_def kahn_def build_deps_def build_degrees_def range_keys_def
      late_services_def depends_on_def empty_service_def index_def service_started_def
      initial_queue_def add_dependent_def)

section \<open>Dependency graph: a DependsOn of another type\<close>

lemma depends_on_loop_keys:
  "(\<And>k. map_of services' k = None \<longleftrightarrow> map_of services k = None) \<Longrightarrow>
   depends_on_loop services' name ds deps = depends_on_loop services name ds deps"
  by (induction ds arbitrary: deps) simp_all

lemma services_loop_visited:
  assumes "\<And>k. map_of services' k = None \<longleftrightarrow> map_of services k = None"
    and "\<And>n. visited it services' n = visited it services n"
  shows "services_loop it services' ks deps = services_loop it services ks deps"
proof (induction ks arbitrary: deps)
  case Nil
  show ?case by simp
next
  case (Cons name ks)
  show ?case
    unfolding services_loop_Cons assms(2) depends_on_loop_keys [of services' services, OF assms(1)]
    by (simp add: Cons.IH split: sum.splits)
qed

lemma kahn_loop_no_children:
  "(\<forall>c. index dependents [] c = []) \<Longrightarrow>
   kahn_loop dependents queue order inDegree = (order @ queue, inDegree)"
proof (induction queue arbitrary: order)
  case Nil
  show ?case by simp
next
  case (Cons c queue)
  from Cons.prems have "index dependents [] c = []" by simp
  then show ?case using Cons.IH [OF Cons.prems, of "order @ [c]"] by simp
qed

lemma other_type_dependencies:
  "\<forall>d. DependsOn svc \<noteq> DependsOnMap d \<Longrightarrow> dependencies svc = []"
  by (simp add: dependencies_def split: dyn.splits)

lemma build_deps_Inr_holds:
  assumes it: "go_iteration it" and wf: "wf_services services"
    and deps: "build_deps it services = Inr deps"
  shows "holds deps (fst ` set services) (dep_list services)"
proof -
  have "references_defined services"
  proof (rule ccontr)
    assume "\<not> references_defined services"
    from build_deps_undefined [OF it this] deps show False by auto
  qed
  from build_deps_defined [OF it wf this] deps show ?thesis by auto
qed


text \<open>
  Claim C10. For a service whose \<open>DependsOn\<close> is not a \<open>map[string]DependsOnCondition\<close> (a
  raw list, a raw map, anything else), \<open>ResolveOrder\<close> returns no undefined-dependency error
  that names the service, and its result is the one obtained with a nil \<open>DependsOn\<close> for that
  service. When the adjacency list is built, the service has in-degree zero, is in the
  initial queue and in the order, and is in no \<open>CycleError\<close>. When no service has a
  \<open>DependsOn\<close> of the map type, the result is the sorted list of all names.
\<close>

theorem resolve_order_ignores_other_types:
  assumes svc: "map_of services name = Some svc"
    and other: "\<forall>d. DependsOn svc \<noteq> DependsOnMap d"
  shows "dependencies svc = []
       \<and> ResolveOrder it services \<noteq> Inl (UndefinedDependency name dep)
       \<and> ResolveOrder it services
           = ResolveOrder it (AList.update name (svc\<lparr>DependsOn := Yaml YNil\<rparr>) services)
       \<and> (go_iteration it \<and> wf_services services \<and> build_deps it services = Inr deps \<longrightarrow>
            index (fst (build_degrees it services deps)) 0 name = 0
            \<and> name \<in> set (initial_queue it (fst (build_degrees it services deps)))
            \<and> name \<in> set (fst (kahn it services deps))
            \<and> (ResolveOrder it services = Inr order \<longrightarrow> name \<in> set order)
            \<and> (ResolveOrder it services = Inl (CycleError cycle) \<longrightarrow> name \<notin> set cycle))
       \<and> (go_iteration it \<and> distinct (map fst services)
            \<and> (\<forall>s\<in>snd ` set services. \<forall>d. DependsOn s \<noteq> DependsOnMap d) \<longrightarrow>
            ResolveOrder it services = Inr (sort (map fst services)))"
proof (intro conjI impI)
  show none: "dependencies svc = []" by (rule other_type_dependencies [OF other])
  have vis0: "visited it services name = []"
    using svc other by (simp add: visited_def split: dyn.splits yaml.splits)
  show "ResolveOrder it services \<noteq> Inl (UndefinedDependency name dep)"
  proof
    assume r: "ResolveOrder it services = Inl (UndefinedDependency name dep)"
    let ?deps0 = "fold (\<lambda>name deps. AList.update name [] deps) (range_keys it (Loop 13) services) []"
    let ?ks = "range_keys it (Loop 17) services"
    have "services_loop it services ?ks ?deps0 = Inl (UndefinedDependency name dep)"
    proof (cases "services_loop it services ?ks ?deps0")
      case (Inl e)
      with r show ?thesis by (simp add: ResolveOrder_def build_deps_def Let_def)
    next
      case (Inr deps1)
      with r show ?thesis
        by (simp add: ResolveOrder_def build_deps_def Let_def split_def split: if_splits)
    qed
    from services_loop_Inl [OF this] obtain n d where
      "d \<in> set (visited it services n)" "UndefinedDependency name dep = UndefinedDependency n d"
      by blast
    then show False using vis0 by auto
  qed
  let ?services = "AList.update name (svc\<lparr>DependsOn := Yaml YNil\<rparr>) services"
  from svc have nK: "name \<in> fst ` set services" by (metis map_of_None_iff_key option.distinct(1))
  then have keys: "map fst ?services = map fst services" by (simp add: update_keys)
  have nonek: "\<And>k. map_of ?services k = None \<longleftrightarrow> map_of services k = None"
    using svc by (simp add: update_conv')
  have vis: "\<And>n. visited it ?services n = visited it services n"
    using svc other by (simp add: visited_def update_conv' split: dyn.splits yaml.splits)
  have r: "\<And>s. range_keys it s ?services = range_keys it s services"
    by (simp add: range_keys_def keys)
  have b: "build_deps it ?services = build_deps it services"
    by (simp add: build_deps_def r services_loop_visited [OF nonek vis])
  have g: "\<And>deps. build_degrees it ?services deps = build_degrees it services deps"
    by (simp add: build_degrees_def r)
  have l: "length ?services = length services"
    using keys by (metis length_map)
  have k: "\<And>deps. kahn it ?services deps = kahn it services deps"
    by (simp only: kahn_def g)
  show "ResolveOrder it services = ResolveOrder it ?services"
    by (simp only: ResolveOrder_def b k l)
  have dl: "dep_list services name = []"
    using svc none by (simp add: dep_list_def)
  have dp: "depends services name = {}"
    using svc none by (simp add: depends_def)
  {
    assume a: "go_iteration it \<and> wf_services services \<and> build_deps it services = Inr deps"
    then have it: "go_iteration it" and wf: "wf_services services"
      and deps: "build_deps it services = Inr deps" by simp_all
    have dk: "distinct (map fst services)" using wf by (simp add: wf_services_def)
    have h: "holds deps (fst ` set services) (dep_list services)"
      by (rule build_deps_Inr_holds [OF it wf deps])
    have hind: "holds (fst (build_degrees it services deps)) (fst ` set services)
                  (\<lambda>n. int (length (dep_list services n)))"
      by (rule build_degrees_holds(1) [OF it dk h distinct_dep_list [OF wf]])
    show z: "index (fst (build_degrees it services deps)) 0 name = 0"
      using holds_index [OF hind, of 0 name] nK by (simp add: dl)
    show "name \<in> set (initial_queue it (fst (build_degrees it services deps)))"
      using initial_queue_holds(3) [OF it hind] nK by (simp add: dl)
    from kahn_final [OF it wf h] obtain f where
      inv: "kahn_inv services [] (fst (kahn it services deps)) f"
      and hf: "holds (snd (kahn it services deps)) (fst ` set services) f" by blast
    show inorder: "name \<in> set (fst (kahn it services deps))"
      using inv_set [OF inv] nK dp by blast
    {
      assume "ResolveOrder it services = Inr order"
      then have "order = fst (kahn it services deps)"
        by (simp add: ResolveOrder_def deps split_def split: if_splits)
      with inorder show "name \<in> set order" by simp
    }
    {
      assume "ResolveOrder it services = Inl (CycleError cycle)"
      then have "cycle = cycled it (snd (kahn it services deps))"
        by (simp add: ResolveOrder_def deps split_def split: if_splits)
      then have "set cycle = {n \<in> fst ` set services. 0 < f n}"
        using cycled_holds(3) [OF it hf] by simp
      then show "name \<notin> set cycle"
        using inv_positive(1) [OF inv nK] inorder by simp
    }
  }
  {
    assume a: "go_iteration it \<and> distinct (map fst services)
            \<and> (\<forall>s\<in>snd ` set services. \<forall>d. DependsOn s \<noteq> DependsOnMap d)"
    then have it: "go_iteration it" and dk: "distinct (map fst services)"
      by simp_all
    have all: "\<And>s. s \<in> snd ` set services \<Longrightarrow> dependencies s = []"
      using a by (intro other_type_dependencies) blast
    have wf: "wf_services services" using dk all by (simp add: wf_services_def)
    have dlist: "\<And>n. dep_list services n = []"
    proof -
      fix n show "dep_list services n = []"
      proof (cases "map_of services n")
        case None
        then show ?thesis by (simp add: dep_list_def)
      next
        case (Some s)
        then have "(n, s) \<in> set services" by (rule map_of_SomeD)
        then have "s \<in> snd ` set services" by force
        with Some all show ?thesis by (simp add: dep_list_def)
      qed
    qed
    have dset: "\<And>n. depends services n = {}"
      using dlist set_dep_list [of services] by (metis empty_set)
    have defined: "references_defined services" by (simp add: references_defined_def dset)
    from build_deps_defined [OF it wf defined] obtain deps where
      deps: "build_deps it services = Inr deps"
      and h: "holds deps (fst ` set services) (dep_list services)" by blast
    let ?ind = "fst (build_degrees it services deps)"
    let ?dpt = "snd (build_degrees it services deps)"
    have hind: "holds ?ind (fst ` set services) (\<lambda>n. int (length (dep_list services n)))"
      by (rule build_degrees_holds(1) [OF it dk h distinct_dep_list [OF wf]])
    have "\<And>c. set (index ?dpt [] c) = {}"
      using build_degrees_holds(3) [OF it dk h distinct_dep_list [OF wf]] by (simp add: dlist)
    then have nochild: "\<forall>c. index ?dpt [] c = []" by simp
    have q: "initial_queue it ?ind = sort (map fst services)"
      using initial_queue_holds [OF it hind] dk
      by (intro sorted_distinct_list) (auto simp: dlist)
    have "kahn it services deps = ([] @ sort (map fst services), ?ind)"
      using kahn_loop_no_children [OF nochild, of "initial_queue it ?ind" "[]" ?ind]
      by (simp add: kahn_def split_def q)
    then show "ResolveOrder it services = Inr (sort (map fst services))"
      by (simp add: ResolveOrder_def deps)
  }
qed


definition raw_list_services :: "Service gomap" where
  "raw_list_services = [(''web'', empty_service\<lparr>DependsOn := Yaml (YSeq [YStr ''db''])\<rparr>)]"

theorem resolve_order_ignores_other_types_witness:
  "map_of raw_list_services ''web'' = Some (empty_service\<lparr>DependsOn := Yaml (YSeq [YStr ''db''])\<rparr>)
   \<and> ResolveOrder (\<lambda>s ks. rev ks) raw_list_services \<noteq> Inl (UndefinedDependency ''web'' ''db'')
   \<and> go_iteration (\<lambda>s ks. rev ks)
   \<and> build_deps (\<lambda>s ks. rev ks) raw_list_services = Inr [(''web'', [])]
   \<and> index (fst (build_degrees (\<lambda>s ks. rev ks) raw_list_services [(''web'', [])])) 0 ''web'' = 0
   \<and> ''web'' \<in> set (initial_queue (\<lambda>s ks. rev ks)
                        (fst (build_degrees (\<lambda>s ks. rev ks) raw_list_services [(''web'', [])])))
   \<and> ResolveOrder (\<lambda>s ks. rev ks) raw_list_services = Inr [''web'']"
proof -
  have m: "map_of raw_list_services ''web'' = Some (empty_service\<lparr>DependsOn := Yaml (YSeq [YStr ''db''])\<rparr>)"
    by (simp add: raw_list_services_def)
  have o: "\<forall>d. DependsOn (empty_service\<lparr>DependsOn := Yaml (YSeq [YStr ''db''])\<rparr>) \<noteq> DependsOnMap d"
    by simp
  have wf: "wf_services raw_list_services"
    by (simp add: wf_services_def raw_list_services_def dependencies_def)
  have dk: "distinct (map fst raw_list_services)" by (simp add: raw_list_services_def)
  have all: "\<forall>s\<in>snd ` set raw_list_services. \<forall>d. DependsOn s \<noteq> DependsOnMap d"
    by (simp add: raw_list_services_def)
  have b: "build_deps (\<lambda>s ks. rev ks) raw_list_services = Inr [(''web'', [])]"
    by (simp add: build_deps_def range_keys_def raw_list_services_def index_def)
  have s: "sort (map fst raw_list_services) = [''web'']" by (simp add: raw_list_services_def)
  note t = resolve_order_ignores_other_types [OF m o, of "\<lambda>s ks. rev ks" "''db''" "[(''web'', [])]"]
  have c2: "ResolveOrder (\<lambda>s ks. rev ks) raw_list_services \<noteq> Inl (UndefinedDependency ''web'' ''db'')"
    by (rule t [THEN conjunct2, THEN conjunct1])
  have "go_iteration (\<lambda>s ks. rev ks) \<and> wf_services raw_list_services
      \<and> build_deps (\<lambda>s ks. rev ks) raw_list_services = Inr [(''web'', [])]"
    using go_iteration_rev wf b by (intro conjI)
  from t [THEN conjunct2, THEN conjunct2, THEN conjunct2, THEN conjunct1, THEN mp, OF this]
  have c4: "index (fst (build_degrees (\<lambda>s ks. rev ks) raw_list_services [(''web'', [])])) 0 ''web'' = 0"
    and c5: "''web'' \<in> set (initial_queue (\<lambda>s ks. rev ks)
                        (fst (build_degrees (\<lambda>s ks. rev ks) raw_list_services [(''web'', [])])))"
    by blast+
  have "go_iteration (\<lambda>s ks. rev ks) \<and> distinct (map fst raw_list_services)
      \<and> (\<forall>s\<in>snd ` set raw_list_services. \<forall>d. DependsOn s \<noteq> DependsOnMap d)"
    using go_iteration_rev dk all by (intro conjI)
  from t [THEN conjunct2, THEN conjunct2, THEN conjunct2, THEN conjunct2, THEN mp, OF this]
  have c6: "ResolveOrder (\<lambda>s ks. rev ks) raw_list_services = Inr [''web'']"
    by (simp only: s)
  from m c2 go_iteration_rev b c4 c5 c6 show ?thesis by (intro conjI)
qed

section \<open>Loader: undeclared dependencies\<close>













end
